theory Spec2Isabelle
  imports Complex_Main "HOL-Library.Char_ord" "HOL-Library.Sublist" "HOL-Library.Multiset"
begin

section \<open>Characters and the string methods the parser uses\<close>

text \<open>
  A Python string is modelled as a \<^typ>\<open>string\<close>, one \<^typ>\<open>char\<close> per code point.
  Codes below 128 are ASCII and are classified as Python classifies them. The codes from
  128 on stand for code points that are neither white space nor alphanumeric nor cased
  (punctuation and symbols); seven of them are fixed below as the non-ASCII glyphs that
  occur in the source (the bullets and the two long dashes).
\<close>

abbreviation NL :: char where "NL \<equiv> CHR 0x0A"
abbreviation CR :: char where "CR \<equiv> CHR 0x0D"

definition glyph_bullet :: char where "glyph_bullet = CHR 0x95"
definition glyph_middot :: char where "glyph_middot = CHR 0xB7"
definition glyph_circle :: char where "glyph_circle = CHR 0x98"
definition glyph_square :: char where "glyph_square = CHR 0x99"
definition glyph_pointer :: char where "glyph_pointer = CHR 0x9A"
definition glyph_endash :: char where "glyph_endash = CHR 0x96"
definition glyph_emdash :: char where "glyph_emdash = CHR 0x97"

definition is_space :: "char \<Rightarrow> bool" where
  \<comment> \<open>\<open>str.isspace\<close>, also what \<open>\s\<close> matches: tab, LF, VT, FF, CR, FS, GS, RS, US, space\<close>
  "is_space c = ((CHR 0x09 \<le> c \<and> c \<le> CHR 0x0D) \<or> (CHR 0x1C \<le> c \<and> c \<le> CHR 0x20))"

definition is_digit :: "char \<Rightarrow> bool" where
  "is_digit c = (CHR ''0'' \<le> c \<and> c \<le> CHR ''9'')"

definition is_upper :: "char \<Rightarrow> bool" where
  "is_upper c = (CHR ''A'' \<le> c \<and> c \<le> CHR ''Z'')"

definition is_lower :: "char \<Rightarrow> bool" where
  "is_lower c = (CHR ''a'' \<le> c \<and> c \<le> CHR ''z'')"

definition is_alpha :: "char \<Rightarrow> bool" where
  "is_alpha c = (is_upper c \<or> is_lower c)"

definition is_word :: "char \<Rightarrow> bool" where
  \<comment> \<open>what \<open>\w\<close> matches\<close>
  "is_word c = (is_alpha c \<or> is_digit c \<or> c = CHR ''_'')"

definition to_upper :: "char \<Rightarrow> char" where
  \<comment> \<open>an ASCII letter changes case by its bit of weight 32\<close>
  "to_upper c = (if is_lower c
     then Char (digit0 c) (digit1 c) (digit2 c) (digit3 c) (digit4 c) False (digit6 c) (digit7 c)
     else c)"

definition to_lower :: "char \<Rightarrow> char" where
  "to_lower c = (if is_upper c
     then Char (digit0 c) (digit1 c) (digit2 c) (digit3 c) (digit4 c) True (digit6 c) (digit7 c)
     else c)"

definition upper :: "string \<Rightarrow> string" where
  "upper s = map to_upper s"

definition lower :: "string \<Rightarrow> string" where
  "lower s = map to_lower s"

fun title_from :: "bool \<Rightarrow> string \<Rightarrow> string" where
  \<comment> \<open>\<open>str.title\<close>: the flag says whether the previous character was cased\<close>
  "title_from prev_cased [] = []"
| "title_from prev_cased (c # cs) =
     (if prev_cased then to_lower c else to_upper c) # title_from (is_alpha c) cs"

definition title :: "string \<Rightarrow> string" where
  "title s = title_from False s"

definition lstrip :: "string \<Rightarrow> string" where
  "lstrip s = dropWhile is_space s"

definition rstrip :: "string \<Rightarrow> string" where
  "rstrip s = rev (dropWhile is_space (rev s))"

definition strip :: "string \<Rightarrow> string" where
  "strip s = rstrip (lstrip s)"

definition lstrip_chars :: "string \<Rightarrow> string \<Rightarrow> string" where
  \<comment> \<open>\<open>s.lstrip(chars)\<close>\<close>
  "lstrip_chars chars s = dropWhile (\<lambda>c. c \<in> set chars) s"

definition rstrip_chars :: "string \<Rightarrow> string \<Rightarrow> string" where
  "rstrip_chars chars s = rev (dropWhile (\<lambda>c. c \<in> set chars) (rev s))"

definition strip_chars :: "string \<Rightarrow> string \<Rightarrow> string" where
  "strip_chars chars s = rstrip_chars chars (lstrip_chars chars s)"

fun split_from :: "string \<Rightarrow> string \<Rightarrow> string list" where
  \<comment> \<open>\<open>str.split()\<close> with the word read so far, reversed\<close>
  "split_from cur [] = (if cur = [] then [] else [rev cur])"
| "split_from cur (c # cs) =
     (if is_space c then (if cur = [] then split_from [] cs else rev cur # split_from [] cs)
      else split_from (c # cur) cs)"

definition split_ws :: "string \<Rightarrow> string list" where
  \<comment> \<open>\<open>s.split()\<close>: the maximal runs of non-space characters\<close>
  "split_ws s = split_from [] s"

fun contains :: "string \<Rightarrow> string \<Rightarrow> bool" where
  \<comment> \<open>\<open>sub in s\<close>\<close>
  "contains sub [] = (sub = [])"
| "contains sub (c # cs) = (take (length sub) (c # cs) = sub \<or> contains sub cs)"

definition endswith :: "string \<Rightarrow> string \<Rightarrow> bool" where
  "endswith s p = (length p \<le> length s \<and> drop (length s - length p) s = p)"

function split_on :: "string \<Rightarrow> string \<Rightarrow> string \<Rightarrow> string list" where
  \<comment> \<open>\<open>s.split(sep)\<close> for a non-empty \<open>sep\<close>, with the field read so far, reversed\<close>
  "split_on sep cur s =
     (if sep \<noteq> [] \<and> take (length sep) s = sep
      then rev cur # split_on sep [] (drop (length sep) s)
      else (case s of [] \<Rightarrow> [rev cur] | c # cs \<Rightarrow> split_on sep (c # cur) cs))"
  by pat_completeness auto
termination
proof (relation "measure (\<lambda>(sep, cur, s). length s)")
  show "wf (measure (\<lambda>(sep, cur, s). length s))" by simp
next
  fix sep cur s :: string
  assume "sep \<noteq> [] \<and> take (length sep) s = sep"
  then have "s \<noteq> []" by auto
  with \<open>sep \<noteq> [] \<and> take (length sep) s = sep\<close>
  show "((sep, [], drop (length sep) s), (sep, cur, s)) \<in> measure (\<lambda>(sep, cur, s). length s)"
    by simp
next
  fix sep cur s :: string and c cs
  assume "s = c # cs"
  then show "((sep, c # cur, cs), (sep, cur, s)) \<in> measure (\<lambda>(sep, cur, s). length s)"
    by simp
qed

declare split_on.simps [simp del]

definition split_sep :: "string \<Rightarrow> string \<Rightarrow> string list" where
  "split_sep sep s = split_on sep [] s"

fun split_once_from :: "string \<Rightarrow> string \<Rightarrow> string \<Rightarrow> string list" where
  \<comment> \<open>\<open>s.split(sep, 1)\<close>: cut at the first occurrence only\<close>
  "split_once_from sep cur [] = [rev cur]"
| "split_once_from sep cur (c # cs) =
     (if take (length sep) (c # cs) = sep then [rev cur, drop (length sep) (c # cs)]
      else split_once_from sep (c # cur) cs)"

definition split_once :: "string \<Rightarrow> string \<Rightarrow> string list" where
  "split_once sep s = split_once_from sep [] s"

fun join :: "string \<Rightarrow> string list \<Rightarrow> string" where
  \<comment> \<open>\<open>sep.join(xs)\<close>\<close>
  "join sep [] = []"
| "join sep [x] = x"
| "join sep (x # y # ys) = x @ sep @ join sep (y # ys)"

definition is_linebreak :: "char \<Rightarrow> bool" where
  \<comment> \<open>the single characters at which \<open>str.splitlines\<close> cuts\<close>
  "is_linebreak c = ((CHR 0x0A \<le> c \<and> c \<le> CHR 0x0D) \<or> (CHR 0x1C \<le> c \<and> c \<le> CHR 0x1E))"

fun splitlines_from :: "string \<Rightarrow> string \<Rightarrow> string list" where
  \<comment> \<open>\<open>str.splitlines\<close>: CR LF counts as one break, and no empty last line\<close>
  "splitlines_from cur [] = (if cur = [] then [] else [rev cur])"
| "splitlines_from cur (c # cs) =
     (if c = CR \<and> cs \<noteq> [] \<and> hd cs = NL then rev cur # splitlines_from [] (tl cs)
      else if is_linebreak c then rev cur # splitlines_from [] cs
      else splitlines_from (c # cur) cs)"

definition splitlines :: "string \<Rightarrow> string list" where
  "splitlines s = splitlines_from [] s"

section \<open>Regular expressions\<close>

text \<open>
  The patterns of the source use ordered alternatives, greedy repetition of one character
  class, optional groups, capturing groups, word boundaries and anchors. A pattern is
  matched the way Python's backtracking matcher does: \<open>rx\<close> lists every way the pattern
  can match at a place in the order in which the matcher tries them, so the head of that
  list is the match Python reports.
\<close>

datatype cls = In "char \<Rightarrow> bool" | NotIn "char \<Rightarrow> bool"

datatype regex =
    Eps
  | Atom cls
  | Seq regex regex
  | Alt regex regex
  | Rep cls nat "nat option"
  | Opt regex
  | Grp nat regex
  | WordB
  | Bol
  | Eol

record mstate =
  behind :: "char option"
  ahead :: string
  groups :: "(nat \<times> string) list"

definition in_class :: "bool \<Rightarrow> (char \<Rightarrow> bool) \<Rightarrow> char \<Rightarrow> bool" where
  \<comment> \<open>the flag is \<open>re.I\<close>: a character is in a class if one of its case variants is\<close>
  "in_class ci p c = (p c \<or> (ci \<and> (p (to_lower c) \<or> p (to_upper c))))"

fun atom_ok :: "bool \<Rightarrow> cls \<Rightarrow> char \<Rightarrow> bool" where
  "atom_ok ci (In p) c = in_class ci p c"
| "atom_ok ci (NotIn p) c = (\<not> in_class ci p c)"

definition consume :: "nat \<Rightarrow> mstate \<Rightarrow> mstate" where
  "consume j st =
     (if j = 0 then st else st\<lparr>behind := Some (ahead st ! (j - 1)), ahead := drop j (ahead st)\<rparr>)"

definition word_at :: "char option \<Rightarrow> bool" where
  "word_at x = (case x of None \<Rightarrow> False | Some c \<Rightarrow> is_word c)"

definition next_char :: "string \<Rightarrow> char option" where
  "next_char s = (case s of [] \<Rightarrow> None | c # _ \<Rightarrow> Some c)"

fun rx :: "bool \<Rightarrow> regex \<Rightarrow> mstate \<Rightarrow> mstate list" where
  "rx ci Eps st = [st]"
| "rx ci (Atom p) st =
     (case ahead st of [] \<Rightarrow> []
      | c # cs \<Rightarrow> if atom_ok ci p c then [st\<lparr>behind := Some c, ahead := cs\<rparr>] else [])"
| "rx ci (Seq a b) st = concat (map (rx ci b) (rx ci a st))"
| "rx ci (Alt a b) st = rx ci a st @ rx ci b st"
| "rx ci (Rep p lo hi) st =
     (let k = length (takeWhile (atom_ok ci p) (ahead st));
          kmax = (case hi of None \<Rightarrow> k | Some h \<Rightarrow> min k h)
      in map (\<lambda>j. consume j st) (rev [lo..<Suc kmax]))"
| "rx ci (Opt r) st = rx ci r st @ [st]"
| "rx ci (Grp n r) st =
     map (\<lambda>st'. st'\<lparr>groups := (n, take (length (ahead st) - length (ahead st')) (ahead st)) # groups st'\<rparr>)
       (rx ci r st)"
| "rx ci WordB st = (if word_at (behind st) \<noteq> word_at (next_char (ahead st)) then [st] else [])"
| "rx ci Bol st = (if behind st = None then [st] else [])"
| "rx ci Eol st = (if ahead st = [] \<or> ahead st = [NL] then [st] else [])"

definition match_at :: "bool \<Rightarrow> regex \<Rightarrow> char option \<Rightarrow> string \<Rightarrow> (nat \<times> (nat \<times> string) list) option" where
  \<comment> \<open>the first match that starts here: its length and its groups\<close>
  "match_at ci r p s =
     (case rx ci r \<lparr>behind = p, ahead = s, groups = []\<rparr> of
        [] \<Rightarrow> None
      | st # _ \<Rightarrow> Some (length s - length (ahead st), groups st))"

datatype piece = Gap string | Hit string "(nat \<times> string) list"

fun push :: "char \<Rightarrow> piece list \<Rightarrow> piece list" where
  "push c (Gap g # ps) = Gap (c # g) # ps"
| "push c ps = Gap [c] # ps"

text \<open>
  \<open>scan\<close> cuts a text into the successive non-overlapping matches of a pattern, leftmost
  first, and the text between them: the common core of \<open>re.sub\<close>, \<open>re.split\<close>,
  \<open>re.findall\<close> and \<open>re.search\<close>. Every pattern of the source consumes at least one
  character when it matches, so a place where only the empty match exists counts as no
  match.
\<close>

function scan :: "bool \<Rightarrow> regex \<Rightarrow> char option \<Rightarrow> string \<Rightarrow> piece list" where
  "scan ci r p s =
     (case match_at ci r p s of
        Some (Suc n, cs) \<Rightarrow>
          Gap [] # Hit (take (Suc n) s) cs # scan ci r (Some (s ! n)) (drop (Suc n) s)
      | _ \<Rightarrow> (case s of [] \<Rightarrow> [Gap []] | c # t \<Rightarrow> push c (scan ci r (Some c) t)))"
  by pat_completeness auto
termination
proof (relation "measure (\<lambda>(ci, r, p, s). length s)")
  show "wf (measure (\<lambda>(ci, r, p, s). length s))" by simp
next
  fix ci r p s x2 x y n
  assume "match_at ci r p s = Some x2" "(x, y) = x2" "x = Suc n"
  then have "match_at ci r p s = Some (Suc n, y)" by simp
  then have "s \<noteq> []"
    by (auto simp: match_at_def split: list.splits)
  then show "((ci, r, Some (s ! n), drop (Suc n) s), (ci, r, p, s))
      \<in> measure (\<lambda>(ci, r, p, s). length s)"
    by simp
qed auto

declare scan.simps [simp del]

definition render :: "(string \<Rightarrow> (nat \<times> string) list \<Rightarrow> string) \<Rightarrow> piece list \<Rightarrow> string" where
  \<comment> \<open>the text again, each match replaced\<close>
  "render f ps = concat (map (\<lambda>pc. case pc of Gap g \<Rightarrow> g | Hit h cs \<Rightarrow> f h cs) ps)"

definition hits :: "piece list \<Rightarrow> (string \<times> (nat \<times> string) list) list" where
  "hits ps = concat (map (\<lambda>pc. case pc of Gap g \<Rightarrow> [] | Hit h cs \<Rightarrow> [(h, cs)]) ps)"

definition gaps :: "piece list \<Rightarrow> string list" where
  "gaps ps = concat (map (\<lambda>pc. case pc of Gap g \<Rightarrow> [g] | Hit h cs \<Rightarrow> []) ps)"

definition re_sub :: "bool \<Rightarrow> regex \<Rightarrow> (string \<Rightarrow> (nat \<times> string) list \<Rightarrow> string) \<Rightarrow> string \<Rightarrow> string" where
  \<comment> \<open>\<open>re.sub\<close>; the replacement is computed from the match and its groups\<close>
  "re_sub ci r f s = render f (scan ci r None s)"

definition re_split :: "bool \<Rightarrow> regex \<Rightarrow> string \<Rightarrow> string list" where
  \<comment> \<open>\<open>re.split\<close> for a pattern without capturing groups\<close>
  "re_split ci r s = gaps (scan ci r None s)"

definition matches :: "bool \<Rightarrow> regex \<Rightarrow> string \<Rightarrow> (string \<times> (nat \<times> string) list) list" where
  "matches ci r s = hits (scan ci r None s)"

definition group :: "(nat \<times> string) list \<Rightarrow> nat \<Rightarrow> string" where
  \<comment> \<open>a group that took no part in the match reads as the empty string\<close>
  "group cs n = (case map_of cs n of None \<Rightarrow> [] | Some g \<Rightarrow> g)"

definition re_findall :: "bool \<Rightarrow> regex \<Rightarrow> string \<Rightarrow> string list" where
  \<comment> \<open>\<open>re.findall\<close> for a pattern without capturing groups: the matches\<close>
  "re_findall ci r s = map fst (matches ci r s)"

definition re_findall1 :: "bool \<Rightarrow> regex \<Rightarrow> string \<Rightarrow> string list" where
  \<comment> \<open>\<open>re.findall\<close> for a pattern with exactly one capturing group: that group of each match\<close>
  "re_findall1 ci r s = map (\<lambda>(h, cs). group cs 1) (matches ci r s)"

definition re_search :: "bool \<Rightarrow> regex \<Rightarrow> string \<Rightarrow> string option" where
  \<comment> \<open>\<open>re.search\<close>: the text of the first match\<close>
  "re_search ci r s = (case matches ci r s of [] \<Rightarrow> None | (h, cs) # _ \<Rightarrow> Some h)"

definition re_match :: "bool \<Rightarrow> regex \<Rightarrow> string \<Rightarrow> bool" where
  \<comment> \<open>\<open>re.match\<close>: is there a match that starts at the first character\<close>
  "re_match ci r s = (match_at ci r None s \<noteq> None)"

definition lit :: "char \<Rightarrow> regex" where
  "lit c = Atom (In (\<lambda>x. x = c))"

definition str :: "string \<Rightarrow> regex" where
  "str s = foldr (\<lambda>c r. Seq (lit c) r) s Eps"

fun alts :: "regex list \<Rightarrow> regex" where
  \<comment> \<open>\<open>a|b|c\<close>, tried from the left\<close>
  "alts [] = Atom (In (\<lambda>c. False))"
| "alts [r] = r"
| "alts (r # rs) = Alt r (alts rs)"

section \<open>Text Normalizer\<close>

definition merge_re :: regex where
  \<comment> \<open>\<open>(\w+)-\s*\n\s*(\w+)\<close>\<close>
  "merge_re =
     Seq (Grp 1 (Rep (In is_word) 1 None))
       (Seq (lit CHR ''-'')
         (Seq (Rep (In is_space) 0 None)
           (Seq (lit NL)
             (Seq (Rep (In is_space) 0 None) (Grp 2 (Rep (In is_word) 1 None))))))"

definition merge_hyphenated_words :: "string \<Rightarrow> string" where
  "merge_hyphenated_words text = re_sub False merge_re (\<lambda>h cs. group cs 1 @ group cs 2) text"

definition normalize_newlines :: "string \<Rightarrow> string" where
  "normalize_newlines text =
     re_sub False (Rep (In (\<lambda>c. c = NL)) 3 None) (\<lambda>h cs. [NL, NL])
       (map (\<lambda>c. if c = CR then NL else c) text)"



subsection \<open>Facts about splitting into words\<close>

lemma split_from_spaces:
  "\<forall>x\<in>set s. is_space x \<Longrightarrow> split_from cur s = (if cur = [] then [] else [rev cur])"
  by (induction s arbitrary: cur) auto

lemma rstrip_Cons:
  "rstrip (c # cs) = (if \<forall>x\<in>set (c # cs). is_space x then [] else c # rstrip cs)"
  by (auto simp: rstrip_def dropWhile_append3 dropWhile_append)

lemma split_from_rstrip: "split_from cur (rstrip s) = split_from cur s"
proof (induction s arbitrary: cur)
  case Nil
  then show ?case by (simp add: rstrip_def)
next
  case (Cons c cs)
  show ?case
  proof (cases "\<forall>x\<in>set (c # cs). is_space x")
    case True
    then show ?thesis
      using split_from_spaces [of "c # cs" cur] by (simp add: rstrip_Cons)
  next
    case False
    then have "rstrip (c # cs) = c # rstrip cs" by (simp only: rstrip_Cons if_False)
    then show ?thesis by (simp add: Cons.IH)
  qed
qed

lemma split_from_lstrip: "split_from [] (lstrip s) = split_from [] s"
  by (induction s) (auto simp: lstrip_def)

lemma split_ws_strip: "split_ws (strip s) = split_ws s"
  by (simp add: split_ws_def strip_def split_from_rstrip split_from_lstrip)

lemma split_from_nonempty: "w \<in> set (split_from cur s) \<Longrightarrow> w \<noteq> []"
  by (induction s arbitrary: cur) (auto split: if_splits)

lemma split_ws_nonempty: "w \<in> set (split_ws s) \<Longrightarrow> w \<noteq> []"
  unfolding split_ws_def by (rule split_from_nonempty)

section \<open>Section Entry Parsers\<close>

datatype py_error = IndexError

definition bullet_marks :: string where
  "bullet_marks =
     [CHR ''-'', glyph_bullet, CHR ''*'', glyph_middot, glyph_circle, glyph_square, glyph_pointer]"

definition month_names :: "string list" where
  "month_names =
     [''Jan'', ''Feb'', ''Mar'', ''Apr'', ''May'', ''Jun'', ''Jul'', ''Aug'', ''Sep'', ''Sept'',
      ''Oct'', ''Nov'', ''Dec'', ''January'', ''February'', ''March'', ''April'', ''May'', ''June'',
      ''July'', ''August'', ''September'', ''October'', ''November'', ''December'']"

definition month_year :: regex where
  \<comment> \<open>\<open>(?:Jan|Feb|...|December)\.?\s+\d{4}\<close>\<close>
  "month_year =
     Seq (alts (map str month_names))
       (Seq (Opt (lit CHR ''.''))
         (Seq (Rep (In is_space) 1 None) (Rep (In is_digit) 4 (Some 4))))"

definition DATE_RE :: regex where
  \<comment> \<open>\<open>(?:month_year|\b\d{4}\b)\s*[-\<dots>to]{1,3}\s*(?:Present|Now|Present\.|\bmonth_year|\d{4})\<close>,
      compiled with \<open>re.I\<close>\<close>
  "DATE_RE =
     Seq (Alt month_year (Seq WordB (Seq (Rep (In is_digit) 4 (Some 4)) WordB)))
       (Seq (Rep (In is_space) 0 None)
         (Seq (Rep (In (\<lambda>c. c \<in> set [CHR ''-'', glyph_endash, glyph_emdash, CHR ''t'', CHR ''o''])) 1 (Some 3))
           (Seq (Rep (In is_space) 0 None)
             (alts [str ''Present'', str ''Now'', Seq (str ''Present'') (lit CHR ''.''),
                    Seq WordB month_year, Rep (In is_digit) 4 (Some 4)]))))"

definition has_upper_initial :: "string \<Rightarrow> bool" where
  \<comment> \<open>\<open>w[0].isupper()\<close>; the source applies it to the words of \<open>split()\<close> only, which are
      never empty (lemma \<open>split_ws_nonempty\<close>)\<close>
  "has_upper_initial w = (case w of [] \<Rightarrow> False | c # _ \<Rightarrow> is_upper c)"

definition is_header_like :: "string \<Rightarrow> bool" where
  "is_header_like line =
     (if line = [] then False
      else if re_search True DATE_RE line \<noteq> None then True
      else if CHR ''@'' \<in> set line \<or> contains '' at '' (lower line) then True
      else (let words = split_ws line in
            1 \<le> length words \<and> length words \<le> 8 \<and>
            (strip line = upper (strip line) \<or> list_ex has_upper_initial words)))"

definition date_sep_re :: regex where
  \<comment> \<open>\<open>[-\<dots>]|\bto\b\<close>, used with \<open>re.I\<close>\<close>
  "date_sep_re =
     Alt (Atom (In (\<lambda>c. c \<in> set [CHR ''-'', glyph_endash, glyph_emdash])))
         (Seq WordB (Seq (str ''to'') WordB))"

definition extract_dates_from_line :: "string \<Rightarrow> py_error + (string option \<times> string option)" where
  "extract_dates_from_line line =
     (case re_search True DATE_RE line of
        None \<Rightarrow> Inr (None, None)
      | Some found \<Rightarrow>
          (let parts = map (\<lambda>p. strip_chars ''.'' (strip p))
                         (filter (\<lambda>p. strip p \<noteq> []) (re_split True date_sep_re found))
           in case parts of
                [] \<Rightarrow> Inl IndexError
              | [a] \<Rightarrow> Inr (Some a, None)
              | a # b # _ \<Rightarrow> Inr (Some a, Some b)))"

record exp_entry =
  exp_title :: "string option"
  exp_company :: "string option"
  exp_location :: "string option"
  exp_start_date :: "string option"
  exp_end_date :: "string option"
  exp_bullets :: "string list"
  exp_raw_header :: "string option"

definition at_re :: regex where
  \<comment> \<open>\<open>\s+at\s+\<close>, used with \<open>re.I\<close>\<close>
  "at_re = Seq (Rep (In is_space) 1 None) (Seq (str ''at'') (Rep (In is_space) 1 None))"

definition split_title_company :: "string \<Rightarrow> py_error + (string option \<times> string option)" where
  \<comment> \<open>the title and the company of a header: cut at \<open>@\<close>, else at \<open>at\<close>, else at a comma\<close>
  "split_title_company header =
     (if CHR ''@'' \<in> set header then
        (case split_once ''@'' header of
           a # b # _ \<Rightarrow> Inr (Some (strip a), Some (strip b))
         | _ \<Rightarrow> Inl IndexError)
      else if contains '' at '' (lower header) then
        (case re_split True at_re header of
           a # b # _ \<Rightarrow> Inr (Some (strip a), Some (strip b))
         | _ \<Rightarrow> Inr (None, None))
      else
        (case map strip (filter (\<lambda>p. strip p \<noteq> []) (split_sep '','' header)) of
           a # b # _ \<Rightarrow> Inr (Some a, Some b)
         | _ \<Rightarrow> Inr (Some header, None)))"

definition experience_entry :: "string \<Rightarrow> string list \<Rightarrow> py_error + exp_entry" where
  \<comment> \<open>what the loop body does once the header and the bullets are collected\<close>
  "experience_entry header bullets =
     (case extract_dates_from_line header of
        Inl e \<Rightarrow> Inl e
      | Inr (start_date, end_date) \<Rightarrow>
          (case split_title_company header of
             Inl e \<Rightarrow> Inl e
           | Inr (title_part, company_part) \<Rightarrow>
               Inr \<lparr>exp_title = title_part, exp_company = company_part, exp_location = None,
                    exp_start_date = start_date, exp_end_date = end_date,
                    exp_bullets = bullets, exp_raw_header = Some header\<rparr>))"

definition starts_with_bullet :: "string \<Rightarrow> bool" where
  \<comment> \<open>\<open>s.startswith(bullet_marks)\<close>\<close>
  "starts_with_bullet s = (case s of [] \<Rightarrow> False | c # _ \<Rightarrow> c \<in> set bullet_marks)"

fun collect_header :: "string \<Rightarrow> string list \<Rightarrow> string \<times> string list" where
  \<comment> \<open>the loop that joins short continuation lines to the header; returns the header and
      the lines not yet read\<close>
  "collect_header header [] = (header, [])"
| "collect_header header (l # ls) =
     (if \<not> starts_with_bullet (strip l) \<and> \<not> is_header_like l then
        (if length (split_ws l) \<le> 8 then collect_header (header @ '' | '' @ strip l) ls
         else (header, l # ls))
      else (header, l # ls))"

fun collect_bullets :: "string list \<Rightarrow> string list \<times> string list" where
  \<comment> \<open>the loop that gathers bullets up to the next header-like line\<close>
  "collect_bullets [] = ([], [])"
| "collect_bullets (l # ls) =
     (if is_header_like l then ([], l # ls)
      else (case strip l of
              [] \<Rightarrow> collect_bullets ls
            | c # cs \<Rightarrow>
                (let b = (if c \<in> set bullet_marks then strip (lstrip_chars bullet_marks (c # cs))
                          else if length (split_ws (c # cs)) \<le> 30 then c # cs
                          else c # cs);
                     (bs, rest) = collect_bullets ls
                 in (b # bs, rest))))"

fun collect_buffer :: "string list \<Rightarrow> string list \<times> string list" where
  \<comment> \<open>the loop of the other branch: the stripped lines up to the next header-like line\<close>
  "collect_buffer [] = ([], [])"
| "collect_buffer (l # ls) =
     (if is_header_like l then ([], l # ls)
      else (let (bs, rest) = collect_buffer ls in (strip l # bs, rest)))"

definition headerless_entry :: "string list \<Rightarrow> exp_entry" where
  "headerless_entry buffer_lines =
     \<lparr>exp_title = None, exp_company = None, exp_location = None, exp_start_date = None,
      exp_end_date = None, exp_bullets = buffer_lines, exp_raw_header = None\<rparr>"

text \<open>
  The outer loop of \<open>parse_experience_section\<close>. In its second branch the index moves on
  only if the inner loop reads a line, which the source does not ensure (the branch is
  chosen on the stripped line, the inner loop tests the line as it is), so the loop may run
  forever: the result is \<open>None\<close> then. A raised exception is \<open>Some (Inl e)\<close>.
\<close>

partial_function (option) parse_experience_section :: "string list \<Rightarrow> (py_error + exp_entry list) option" where
  "parse_experience_section lines =
     (case lines of
        [] \<Rightarrow> Some (Inr [])
      | l # ls \<Rightarrow>
          if is_header_like (strip l) then
            (case collect_header (strip l) ls of (header, ls1) \<Rightarrow>
              (case collect_bullets ls1 of (bullets, ls2) \<Rightarrow>
                (case experience_entry header bullets of
                   Inl e \<Rightarrow> Some (Inl e)
                 | Inr entry \<Rightarrow>
                     Option.bind (parse_experience_section ls2)
                       (\<lambda>r. Some (case r of Inl e \<Rightarrow> Inl e | Inr entries \<Rightarrow> Inr (entry # entries))))))
          else
            (case collect_buffer (l # ls) of (buffer_lines, ls1) \<Rightarrow>
              if buffer_lines \<noteq> [] then
                Option.bind (parse_experience_section ls1)
                  (\<lambda>r. Some (case r of Inl e \<Rightarrow> Inl e
                                | Inr entries \<Rightarrow> Inr (headerless_entry buffer_lines # entries)))
              else parse_experience_section ls1))"

declare parse_experience_section.simps [code]


record project_entry =
  prj_name :: "string option"
  prj_role :: "string option"
  prj_tech :: "string list"
  prj_bullets :: "string list"
  prj_raw_header :: "string option"

definition is_caps_short :: "string \<Rightarrow> bool" where
  \<comment> \<open>the line at which both inner loops of \<open>parse_projects_section\<close> stop: not blank, at
      most 10 tokens, and equal to its own upper-casing\<close>
  "is_caps_short l =
     (strip l \<noteq> [] \<and> length (split_ws l) \<le> 10 \<and> strip l = upper (strip l))"

definition tech_items :: "string \<Rightarrow> string list" where
  \<comment> \<open>\<open>[t.strip() for t in re.split(r"[,|]", l) if t.strip()]\<close>\<close>
  "tech_items l =
     map strip (filter (\<lambda>t. strip t \<noteq> [])
       (re_split False (Atom (In (\<lambda>c. c = CHR '','' \<or> c = CHR ''|''))) l))"

fun collect_project :: "string list \<Rightarrow> string list \<times> string list \<times> string list" where
  \<comment> \<open>the loop after a project name: the bullets, the technologies, and the lines not yet read\<close>
  "collect_project [] = ([], [], [])"
| "collect_project (l # ls) =
     (if is_caps_short l then ([], [], l # ls)
      else (case strip l of
              [] \<Rightarrow> collect_project ls
            | c # cs \<Rightarrow>
                (case collect_project ls of (bullets, tech, rest) \<Rightarrow>
                   if c \<in> set bullet_marks
                   then (strip (lstrip_chars bullet_marks (c # cs)) # bullets, tech, rest)
                   else if CHR '','' \<in> set (c # cs) \<or> CHR ''|'' \<in> set (c # cs)
                   then (bullets, tech_items (c # cs) @ tech, rest)
                   else ((c # cs) # bullets, tech, rest))))"

fun collect_project_buffer :: "string list \<Rightarrow> string list \<times> string list" where
  "collect_project_buffer [] = ([], [])"
| "collect_project_buffer (l # ls) =
     (if is_caps_short l then ([], l # ls)
      else (case collect_project_buffer ls of (bs, rest) \<Rightarrow> (strip l # bs, rest)))"

definition is_project_name :: "string \<Rightarrow> bool" where
  \<comment> \<open>the test of the outer loop, on the stripped line\<close>
  "is_project_name line = (line \<noteq> [] \<and> (length (split_ws line) \<le> 10 \<or> endswith line '':''))"

lemma collect_project_length: "length (snd (snd (collect_project ls))) \<le> length ls"
  by (induction ls) (auto split: list.splits prod.splits)

lemma collect_project_buffer_length: "length (snd (collect_project_buffer ls)) \<le> length ls"
  by (induction ls) (auto split: prod.splits)

lemma not_project_name_not_caps: "\<not> is_project_name (strip l) \<Longrightarrow> \<not> is_caps_short l"
  by (auto simp: is_project_name_def is_caps_short_def split_ws_strip)


function parse_projects_section :: "string list \<Rightarrow> project_entry list" where
  "parse_projects_section lines =
     (case lines of
        [] \<Rightarrow> []
      | l # ls \<Rightarrow>
          if is_project_name (strip l) then
            (case collect_project ls of (bullets, tech, rest) \<Rightarrow>
               \<lparr>prj_name = Some (rstrip_chars '':'' (strip l)), prj_role = None, prj_tech = tech,
                prj_bullets = bullets, prj_raw_header = Some (strip l)\<rparr>
               # parse_projects_section rest)
          else
            (case collect_project_buffer (l # ls) of (buffer, rest) \<Rightarrow>
               if buffer \<noteq> [] then
                 \<lparr>prj_name = None, prj_role = None, prj_tech = [], prj_bullets = buffer,
                  prj_raw_header = None\<rparr>
                 # parse_projects_section rest
               else parse_projects_section rest))"
  by pat_completeness auto
termination
proof (relation "measure length")
  show "wf (measure length)" by simp
next
  fix lines l ls x bullets y tech rest
  assume "lines = l # ls" "(bullets, y) = collect_project ls" "(tech, rest) = y"
  then have "rest = snd (snd (collect_project ls))" by (metis snd_conv)
  with \<open>lines = l # ls\<close> show "(rest, lines) \<in> measure length"
    using collect_project_length [of ls] by simp
next
  fix lines l ls x buffer rest
  assume a: "lines = l # ls" "\<not> is_project_name (strip l)"
    "(buffer, rest) = collect_project_buffer (l # ls)"
  from a(2) have "\<not> is_caps_short l" by (rule not_project_name_not_caps)
  with a(3) have "rest = snd (collect_project_buffer ls)"
    by (auto split: prod.splits)
  with a(1) show "(rest, lines) \<in> measure length"
    using collect_project_buffer_length [of ls] by simp
next
  fix lines l ls x buffer rest
  assume a: "lines = l # ls" "\<not> is_project_name (strip l)"
    "(buffer, rest) = collect_project_buffer (l # ls)"
  from a(2) have "\<not> is_caps_short l" by (rule not_project_name_not_caps)
  with a(3) have "rest = snd (collect_project_buffer ls)"
    by (auto split: prod.splits)
  with a(1) show "(rest, lines) \<in> measure length"
    using collect_project_buffer_length [of ls] by simp
qed

declare parse_projects_section.simps [simp del]


record education_entry =
  edu_degree :: "string option"
  edu_institute :: "string option"
  edu_bullets :: "string list"
  edu_raw_header :: "string option"

fun collect_education :: "string list \<Rightarrow> string list \<times> string list" where
  \<comment> \<open>the short lines that follow an education header\<close>
  "collect_education [] = ([], [])"
| "collect_education (l # ls) =
     (if length (split_ws l) \<le> 12 \<and> \<not> is_header_like l then
        (case collect_education ls of (bs, rest) \<Rightarrow>
           (if strip l \<noteq> [] then strip l # bs else bs, rest))
      else ([], l # ls))"

definition split_degree_institute :: "string \<Rightarrow> py_error + (string option \<times> string option)" where
  "split_degree_institute header =
     (case map strip (filter (\<lambda>p. strip p \<noteq> []) (split_sep '','' header)) of
        a # b # bs \<Rightarrow> Inr (Some a, Some (join '', '' (b # bs)))
      | _ \<Rightarrow>
          if contains '' - '' header then
            (case split_once '' - '' header of
               a # b # _ \<Rightarrow> Inr (Some (strip a), Some (strip b))
             | _ \<Rightarrow> Inl IndexError)
          else Inr (Some header, None))"

lemma collect_education_length: "length (snd (collect_education ls)) \<le> length ls"
  by (induction ls) (auto split: prod.splits)

function parse_education_section :: "string list \<Rightarrow> (py_error + education_entry list)" where
  "parse_education_section lines =
     (case lines of
        [] \<Rightarrow> Inr []
      | l # ls \<Rightarrow>
          if strip l = [] then parse_education_section ls
          else
            (case collect_education ls of (bullets, rest) \<Rightarrow>
              (case split_degree_institute (strip l) of
                 Inl e \<Rightarrow> Inl e
               | Inr (degree, institute) \<Rightarrow>
                   (case parse_education_section rest of
                      Inl e \<Rightarrow> Inl e
                    | Inr entries \<Rightarrow>
                        Inr (\<lparr>edu_degree = degree, edu_institute = institute,
                              edu_bullets = bullets, edu_raw_header = Some (strip l)\<rparr>
                             # entries)))))"
  by pat_completeness auto
termination
proof (relation "measure length")
  show "wf (measure length)" by simp
next
  fix lines l ls
  assume "lines = l # ls"
  then show "(ls, lines) \<in> measure length" by simp
next
  fix lines l ls x bullets rest
  assume "lines = l # ls" "(bullets, rest) = collect_education ls"
  then have "rest = snd (collect_education ls)" by (metis snd_conv)
  with \<open>lines = l # ls\<close> show "(rest, lines) \<in> measure length"
    using collect_education_length [of ls] by simp
qed

declare parse_education_section.simps [simp del]

subsection \<open>Skills\<close>

definition skill_parts :: "string list \<Rightarrow> string list" where
  \<comment> \<open>the lines joined with \<open>" | "\<close> and cut at commas, bars, semicolons and line breaks\<close>
  "skill_parts lines =
     map strip (filter (\<lambda>p. strip p \<noteq> [])
       (re_split False
          (Atom (In (\<lambda>c. c = CHR '','' \<or> c = CHR ''|'' \<or> c = CHR '';'' \<or> c = NL)))
          (join '' | '' lines)))"

definition collapse_spaces :: "string \<Rightarrow> string" where
  \<comment> \<open>\<open>re.sub(r"\s+", " ", p)\<close>\<close>
  "collapse_spaces p = re_sub False (Rep (In is_space) 1 None) (\<lambda>h cs. '' '') p"

definition skill_case :: "string \<Rightarrow> string" where
  \<comment> \<open>the body of the first loop: white space collapsed, then the capitalisation rule\<close>
  "skill_case p = (let s = collapse_spaces p in if upper s = s then s else title s)"

fun dedupe :: "string set \<Rightarrow> string list \<Rightarrow> string list" where
  \<comment> \<open>the second loop, with the set \<open>seen\<close>\<close>
  "dedupe seen [] = []"
| "dedupe seen (s # ss) =
     (if lower s \<notin> seen then s # dedupe (insert (lower s) seen) ss else dedupe seen ss)"

definition parse_skills_section :: "string list \<Rightarrow> string list" where
  "parse_skills_section lines = dedupe {} (map skill_case (skill_parts lines))"


section \<open>Block Segmenter\<close>

definition block_lines :: "string \<Rightarrow> string list" where
  \<comment> \<open>\<open>[ln.strip() for ln in b.splitlines() if ln.strip()]\<close>\<close>
  "block_lines b = map strip (filter (\<lambda>l. strip l \<noteq> []) (splitlines b))"

definition preprocess_text_into_blocks :: "string \<Rightarrow> string list list \<times> string list" where
  "preprocess_text_into_blocks raw_text =
     (let t = normalize_newlines (merge_hyphenated_words raw_text);
          blocks_raw = filter (\<lambda>b. strip b \<noteq> []) (split_sep [NL, NL] t);
          blocks = filter (\<lambda>lines. lines \<noteq> []) (map block_lines blocks_raw)
      in (blocks, concat blocks))"

section \<open>Repetition Filter\<close>

text \<open>
  The \<open>Counter\<close> is a dictionary: an association list with one pair for each key, in the
  order in which the keys came in. The set \<open>seen\<close> of a block is listed without
  repetitions; the order in which the source goes through it has no effect on the counts.
\<close>

fun bump :: "string \<Rightarrow> (string \<times> nat) list \<Rightarrow> (string \<times> nat) list" where
  \<comment> \<open>\<open>counter[k] += 1\<close>\<close>
  "bump k [] = [(k, 1)]"
| "bump k ((k', v) # kvs) = (if k = k' then (k', v + 1) # kvs else (k', v) # bump k kvs)"

definition seen_keys :: "string list \<Rightarrow> string list" where
  \<comment> \<open>the stripped lines of a block that have at most 6 words\<close>
  "seen_keys block = remdups (filter (\<lambda>key. length (split_ws key) \<le> 6) (map strip block))"

definition count_blocks :: "string list list \<Rightarrow> (string \<times> nat) list" where
  \<comment> \<open>the first loop: in how many blocks each short line occurs\<close>
  "count_blocks blocks = fold (\<lambda>block counter. fold bump (seen_keys block) counter) blocks []"

fun clean_block :: "string set \<Rightarrow> string set \<Rightarrow> string list \<Rightarrow> string list \<times> string set" where
  \<comment> \<open>the inner loop of the second pass: the lines kept, and the set \<open>removed\<close> afterwards\<close>
  "clean_block repeated removed [] = ([], removed)"
| "clean_block repeated removed (l # ls) =
     (let key = strip l in
      if key \<in> repeated then
        (if key \<in> removed then clean_block repeated removed ls
         else (case clean_block repeated (insert key removed) ls of
                 (new_block, removed') \<Rightarrow> (l # new_block, removed')))
      else (case clean_block repeated removed ls of
              (new_block, removed') \<Rightarrow> (l # new_block, removed')))"

fun clean_blocks :: "string set \<Rightarrow> string set \<Rightarrow> string list list \<Rightarrow> string list list" where
  "clean_blocks repeated removed [] = []"
| "clean_blocks repeated removed (block # blocks) =
     (case clean_block repeated removed block of
        (new_block, removed') \<Rightarrow>
          if new_block \<noteq> [] then new_block # clean_blocks repeated removed' blocks
          else clean_blocks repeated removed' blocks)"

definition remove_repeated_header_footer :: "string list list \<Rightarrow> string list list" where
  "remove_repeated_header_footer blocks =
     (let counter = count_blocks blocks;
          repeated = set (map fst (filter (\<lambda>(k, v). 1 < v) counter))
      in if repeated = {} then blocks else clean_blocks repeated {} blocks)"

section \<open>Header Extractor\<close>

definition name_word_re :: regex where
  \<comment> \<open>\<open>^[A-Za-z'-]+$\<close>\<close>
  "name_word_re =
     Seq Bol (Seq (Rep (In (\<lambda>c. is_upper c \<or> is_lower c \<or> c = CHR 0x27 \<or> c = CHR ''-'')) 1 None) Eol)"

definition likely_name :: "string \<Rightarrow> bool" where
  "likely_name line =
     (if line = [] \<or> length (split_ws line) > 4 then False
      else if list_ex (\<lambda>x. contains x (lower line))
                [''resume'', ''cv'', ''curriculum'', ''address'', ''phone'', ''email''] then False
      else (let words = split_ws line;
                alpha_words = length (filter (re_match False name_word_re) words)
            in if alpha_words < max 1 (length words div 2) then False
               else (let title_like = length (filter has_upper_initial words)
                     in title_like \<ge> 1)))"

definition email_re :: regex where
  \<comment> \<open>\<open>[\w\.-]+@[\w\.-]+\.\w+\<close>\<close>
  "email_re =
     Seq (Rep (In (\<lambda>c. is_word c \<or> c = CHR ''.'' \<or> c = CHR ''-'')) 1 None)
       (Seq (lit CHR ''@'')
         (Seq (Rep (In (\<lambda>c. is_word c \<or> c = CHR ''.'' \<or> c = CHR ''-'')) 1 None)
           (Seq (lit CHR ''.'') (Rep (In is_word) 1 None))))"

definition space_or_dash :: cls where
  \<comment> \<open>\<open>[\s-]\<close>\<close>
  "space_or_dash = In (\<lambda>c. is_space c \<or> c = CHR ''-'')"

definition phone_re :: regex where
  \<comment> \<open>\<open>(\+\d{1,3}[\s-]?)?(?:\(?\d{2,4}\)?[\s-]?)?\d{3,4}[\s-]?\d{3,4}\<close>: one capturing
      group, the country code\<close>
  "phone_re =
     Seq (Opt (Grp 1 (Seq (lit CHR ''+'') (Seq (Rep (In is_digit) 1 (Some 3)) (Opt (Atom space_or_dash))))))
       (Seq (Opt (Seq (Opt (lit CHR ''(''))
                   (Seq (Rep (In is_digit) 2 (Some 4))
                     (Seq (Opt (lit CHR '')'')) (Opt (Atom space_or_dash))))))
         (Seq (Rep (In is_digit) 3 (Some 4))
           (Seq (Opt (Atom space_or_dash)) (Rep (In is_digit) 3 (Some 4)))))"

definition url_chars :: cls where
  \<comment> \<open>\<open>[\w\.-/]\<close>: inside the brackets \<open>\.-/\<close> is the range from the dot to the slash\<close>
  "url_chars = In (\<lambda>c. is_word c \<or> (CHR ''.'' \<le> c \<and> c \<le> CHR ''/''))"

definition url_re :: regex where
  \<comment> \<open>\<open>https?://[\w\.-/]+|www\.[\w\.-/]+|linkedin\.com/[^\s,]+|github\.com/[^\s,]+\<close>, compiled
      with \<open>re.I\<close>\<close>
  "url_re =
     alts [Seq (str ''http'') (Seq (Opt (lit CHR ''s'')) (Seq (str ''://'') (Rep url_chars 1 None))),
           Seq (str ''www.'') (Rep url_chars 1 None),
           Seq (str ''linkedin.com/'') (Rep (NotIn (\<lambda>c. is_space c \<or> c = CHR '','')) 1 None),
           Seq (str ''github.com/'') (Rep (NotIn (\<lambda>c. is_space c \<or> c = CHR '','')) 1 None)]"

record contact_info =
  emails :: "string list"
  phones :: "string list"
  links :: "string list"

record header_scan =
  contact :: contact_info
  name_candidate :: "string option"
  name_index :: "nat option"

definition add_new :: "string \<Rightarrow> string list \<Rightarrow> string list" where
  \<comment> \<open>\<open>if m not in xs: xs.append(m)\<close>\<close>
  "add_new m xs = (if m \<in> set xs then xs else xs @ [m])"

definition digit_count :: "string \<Rightarrow> nat" where
  \<comment> \<open>\<open>len(re.sub(r"\D", "", candidate))\<close>\<close>
  "digit_count candidate = length (re_sub False (Atom (NotIn is_digit)) (\<lambda>h cs. []) candidate)"

definition add_phone :: "string \<Rightarrow> string list \<Rightarrow> string list" where
  \<comment> \<open>the body of the loop over \<open>phone_re.findall(ln)\<close>. The pattern has one capturing group,
      so \<open>findall\<close> yields that group of each match as a string; the branch of the source
      that joins a tuple is never taken\<close>
  "add_phone m xs =
     (let candidate = strip m in
      if candidate \<noteq> [] \<and> candidate \<notin> set xs \<and> digit_count candidate \<ge> 7
      then xs @ [candidate] else xs)"

definition scan_line :: "nat \<Rightarrow> string \<Rightarrow> header_scan \<Rightarrow> header_scan" where
  \<comment> \<open>one turn of the loop over the header block\<close>
  "scan_line i line st =
     (let c = contact st;
          c1 = \<lparr>emails = fold add_new (re_findall False email_re line) (emails c),
                phones = fold add_phone (re_findall1 False phone_re line) (phones c),
                links = fold add_new (re_findall True url_re line) (links c)\<rparr>
      in if name_candidate st = None \<and> likely_name line
         then \<lparr>contact = c1, name_candidate = Some (strip line), name_index = Some i\<rparr>
         else st\<lparr>contact := c1\<rparr>)"

definition has_contact :: "string \<Rightarrow> bool" where
  \<comment> \<open>\<open>email_re.search(ln) or phone_re.search(ln) or url_re.search(ln)\<close>\<close>
  "has_contact line =
     (re_search False email_re line \<noteq> None \<or> re_search False phone_re line \<noteq> None
      \<or> re_search True url_re line \<noteq> None)"

definition header_lines_set :: "string list \<Rightarrow> nat option \<Rightarrow> string set" where
  \<comment> \<open>the window lines up to the name, and the window lines with contact patterns\<close>
  "header_lines_set header_block idx =
     (case idx of None \<Rightarrow> {} | Some k \<Rightarrow> set (map (\<lambda>j. header_block ! j) [0..<k + 1]))
     \<union> set (filter has_contact header_block)"

definition extract_header_info :: "string list \<Rightarrow> nat \<Rightarrow> string option \<times> contact_info \<times> string list" where
  "extract_header_info lines scan_lines =
     (let header_block = take scan_lines lines;
          st = fold (\<lambda>(i, line) st. scan_line i line st) (enumerate 0 header_block)
                 \<lparr>contact = \<lparr>emails = [], phones = [], links = []\<rparr>,
                  name_candidate = None, name_index = None\<rparr>;
          remaining = filter (\<lambda>line. line \<notin> header_lines_set header_block (name_index st)) lines
      in (name_candidate st, contact st, remaining))"

section \<open>Section Segmenter\<close>

definition SECTION_PATTERNS :: "(string \<times> string list) list" where
  "SECTION_PATTERNS =
     [(''experience'', [''experience'', ''work experience'', ''professional experience'', ''employment history'']),
      (''education'', [''education'', ''academic details'', ''academic background'']),
      (''projects'', [''projects'', ''academic projects'', ''personal projects'']),
      (''skills'', [''skills'', ''technical skills'', ''skills & tools'', ''technologies'']),
      (''certifications'', [''certifications'', ''certificates'']),
      (''awards'', [''awards'', ''achievements'', ''honors'']),
      (''summary'', [''summary'', ''profile'', ''about me''])]"

definition section_pairs :: "(string \<times> string) list" where
  \<comment> \<open>the pairs the two nested loops over \<open>SECTION_PATTERNS.items()\<close> go through, in order\<close>
  "section_pairs = concat (map (\<lambda>(sect, patterns). map (\<lambda>p. (sect, p)) patterns) SECTION_PATTERNS)"

definition normalize_for_matching :: "string \<Rightarrow> string" where
  "normalize_for_matching s =
     strip (re_sub False (Rep (In is_space) 1 None) (\<lambda>h cs. '' '')
       (re_sub False (Atom (NotIn (\<lambda>c. is_lower c \<or> is_digit c \<or> is_space c))) (\<lambda>h cs. '' '')
         (lower s)))"

subsection \<open>The similarity ratio of \<open>difflib.SequenceMatcher\<close>\<close>

text \<open>
  \<open>SequenceMatcher(None, a, b).ratio()\<close> is a function of Python's library. It is modelled
  as the library documents it: the longest block common to both strings is found, the
  one that starts earliest in \<open>a\<close> and then earliest in \<open>b\<close> among the longest; the same
  is done to the left and to the right of it; the ratio is twice the number of matched
  characters over the sum of the two lengths. (No character is junk, and the heuristic for
  popular characters needs a second string of 200 characters or more; the labels are
  shorter.) The ratio is a float in the source and an exact fraction here.
\<close>

fun common_prefix :: "string \<Rightarrow> string \<Rightarrow> nat" where
  "common_prefix (x # xs) (y # ys) = (if x = y then Suc (common_prefix xs ys) else 0)"
| "common_prefix _ _ = 0"

definition match_candidates :: "string \<Rightarrow> string \<Rightarrow> (nat \<times> nat \<times> nat) list" where
  "match_candidates a b =
     concat (map (\<lambda>i. map (\<lambda>j. (i, j, common_prefix (drop i a) (drop j b))) [0..<length b])
                 [0..<length a])"

definition find_longest_match :: "string \<Rightarrow> string \<Rightarrow> nat \<times> nat \<times> nat" where
  "find_longest_match a b =
     fold (\<lambda>c best. if snd (snd c) > snd (snd best) then c else best) (match_candidates a b) (0, 0, 0)"

lemma find_longest_match_in:
  "find_longest_match a b = (0, 0, 0) \<or> find_longest_match a b \<in> set (match_candidates a b)"
proof -
  have "fold (\<lambda>c best. if snd (snd c) > snd (snd best) then c else best) cs b0 = b0
      \<or> fold (\<lambda>c best. if snd (snd c) > snd (snd best) then c else best) cs b0 \<in> set cs"
    for cs and b0 :: "nat \<times> nat \<times> nat"
  proof (induction cs arbitrary: b0)
    case Nil
    then show ?case by simp
  next
    case (Cons c cs)
    show ?case
      using Cons.IH [of "if snd (snd c) > snd (snd b0) then c else b0"] by (auto split: if_splits)
  qed
  then show ?thesis unfolding find_longest_match_def by blast
qed

lemma find_longest_match_bounds:
  assumes "find_longest_match a b = (i, j, k)" and "0 < k"
  shows "i < length a \<and> j < length b"
  using find_longest_match_in [of a b] assms by (auto simp: match_candidates_def)

function matching_size :: "string \<Rightarrow> string \<Rightarrow> nat" where
  \<comment> \<open>the sum of the sizes of the matching blocks\<close>
  "matching_size a b =
     (case find_longest_match a b of
        (i, j, k) \<Rightarrow>
          if k = 0 then 0
          else k + matching_size (take i a) (take j b)
                 + matching_size (drop (i + k) a) (drop (j + k) b))"
  by pat_completeness auto
termination
proof (relation "measure (\<lambda>(a, b). length a + length b)")
  show "wf (measure (\<lambda>(a, b). length a + length b))" by simp
next
  fix a b :: string and x i y j k
  assume "(i, y) = find_longest_match a b" "(j, k) = y" "k \<noteq> 0"
  then have "find_longest_match a b = (i, j, k)" "0 < k" by simp_all
  then have "i < length a \<and> j < length b" by (rule find_longest_match_bounds)
  then show "((take i a, take j b), (a, b)) \<in> measure (\<lambda>(a, b). length a + length b)"
    by simp
next
  fix a b :: string and x i y j k
  assume "(i, y) = find_longest_match a b" "(j, k) = y" "k \<noteq> 0"
  then have "find_longest_match a b = (i, j, k)" "0 < k" by simp_all
  then have "i < length a \<and> j < length b" by (rule find_longest_match_bounds)
  with \<open>0 < k\<close> have "length a - (i + k) + (length b - (j + k)) < length a + length b"
    by arith
  then show "((drop (i + k) a, drop (j + k) b), (a, b)) \<in> measure (\<lambda>(a, b). length a + length b)"
    by simp
qed

declare matching_size.simps [simp del]

definition ratio :: "string \<Rightarrow> string \<Rightarrow> rat" where
  "ratio a b =
     (if length a + length b = 0 then 1
      else 2 * of_nat (matching_size a b) / of_nat (length a + length b))"

subsection \<open>Headings\<close>

definition is_section_header :: "string \<Rightarrow> string option" where
  "is_section_header line =
     (let norm = normalize_for_matching line in
      case find (\<lambda>(sect, patterns). list_ex (\<lambda>p. contains p norm) patterns) SECTION_PATTERNS of
        Some (sect, patterns) \<Rightarrow> Some sect
      | None \<Rightarrow>
          if length (split_ws norm) > 8 then None
          else
            (case find (\<lambda>(sect, p). ratio norm p > 78 / 100) section_pairs of
               Some (sect, p) \<Rightarrow> Some sect
             | None \<Rightarrow>
                 if strip line = upper (strip line) \<and> 1 \<le> length (split_ws line)
                    \<and> length (split_ws line) \<le> 6
                 then
                   (case fold (\<lambda>(sect, p) best.
                                 if ratio norm p > snd best then (Some sect, ratio norm p) else best)
                           section_pairs (None, 0)
                    of (Some sect, score) \<Rightarrow> if score > 1 / 2 then Some sect else None
                     | (None, score) \<Rightarrow> None)
                 else None))"

record segmenter =
  sections :: "(string \<times> string list) list"
  current_section :: string

definition has_key :: "string \<Rightarrow> (string \<times> string list) list \<Rightarrow> bool" where
  "has_key k d = (k \<in> set (map fst d))"

fun append_to :: "string \<Rightarrow> string \<Rightarrow> (string \<times> string list) list \<Rightarrow> (string \<times> string list) list" where
  \<comment> \<open>\<open>sections.setdefault(k, []).append(line)\<close>\<close>
  "append_to k line [] = [(k, [line])]"
| "append_to k line ((k', v) # d) =
     (if k = k' then (k', v @ [line]) # d else (k', v) # append_to k line d)"

definition segment_step :: "string \<Rightarrow> segmenter \<Rightarrow> segmenter" where
  \<comment> \<open>one turn of the loop over the lines\<close>
  "segment_step line st =
     (case is_section_header line of
        Some matched \<Rightarrow>
          \<lparr>sections = (if has_key matched (sections st) then sections st
                       else sections st @ [(matched, [])]),
           current_section = matched\<rparr>
      | None \<Rightarrow> st\<lparr>sections := append_to (current_section st) line (sections st)\<rparr>)"

definition segment_sections :: "string list \<Rightarrow> (string \<times> string list) list" where
  \<comment> \<open>the dictionary returned, as the list of its items in insertion order\<close>
  "segment_sections lines =
     filter (\<lambda>(k, v). v \<noteq> [])
       (sections (fold segment_step lines \<lparr>sections = [(''other'', [])], current_section = ''other''\<rparr>))"

section \<open>Top-Level Orchestrator\<close>

record parsed_resume =
  pr_raw_text :: string
  pr_raw_clean :: string
  pr_name :: "string option"
  pr_contact :: contact_info
  pr_blocks :: "string list list"
  pr_lines :: "string list"
  pr_sections :: "(string \<times> string list) list"
  pr_experience :: "exp_entry list"
  pr_projects :: "project_entry list"
  pr_education :: "education_entry list"
  pr_skills :: "string list"
  pr_other :: "(string \<times> string list) list"

definition other_sections :: "(string \<times> string list) list \<Rightarrow> (string \<times> string list) list" where
  \<comment> \<open>the loop over \<open>("certifications", "awards", "summary")\<close>\<close>
  "other_sections sects =
     concat (map (\<lambda>k. case map_of sects k of None \<Rightarrow> [] | Some v \<Rightarrow> [(k, v)])
               [''certifications'', ''awards'', ''summary''])"

text \<open>
  The result is \<open>None\<close> if the call does not return, \<open>Some (Inl e)\<close> if it raises \<open>e\<close>,
  and \<open>Some (Inr r)\<close> if it returns the dictionary \<open>r\<close>.
\<close>

definition parse_resume_text :: "string \<Rightarrow> (py_error + parsed_resume) option" where
  "parse_resume_text raw_text =
     (let cleaned = normalize_newlines (merge_hyphenated_words raw_text);
          blocks = remove_repeated_header_footer (fst (preprocess_text_into_blocks cleaned));
          flat_lines = concat blocks
      in case extract_header_info flat_lines 15 of
           (name, info, remaining) \<Rightarrow>
             (let sects = segment_sections remaining
              in case (case map_of sects ''experience'' of
                         None \<Rightarrow> Some (Inr [])
                       | Some ls \<Rightarrow> parse_experience_section ls) of
                   None \<Rightarrow> None
                 | Some (Inl e) \<Rightarrow> Some (Inl e)
                 | Some (Inr experience) \<Rightarrow>
                     (let projects = (case map_of sects ''projects'' of
                                        None \<Rightarrow> []
                                      | Some ls \<Rightarrow> parse_projects_section ls)
                      in case (case map_of sects ''education'' of
                                 None \<Rightarrow> Inr []
                               | Some ls \<Rightarrow> parse_education_section ls) of
                           Inl e \<Rightarrow> Some (Inl e)
                         | Inr education \<Rightarrow>
                             (let skills = (case map_of sects ''skills'' of
                                              None \<Rightarrow> []
                                            | Some ls \<Rightarrow> parse_skills_section ls)
                              in Some (Inr
                                   \<lparr>pr_raw_text = raw_text, pr_raw_clean = cleaned,
                                    pr_name = name, pr_contact = info, pr_blocks = blocks,
                                    pr_lines = flat_lines, pr_sections = sects,
                                    pr_experience = experience, pr_projects = projects,
                                    pr_education = education, pr_skills = skills,
                                    pr_other = other_sections sects\<rparr>)))))"

section \<open>Auxiliary notions used in the proofs\<close>




fun first_seen :: "string list \<Rightarrow> string list" where
  \<comment> \<open>the words of the specification, "deduplicated case-insensitively, preserving
      first-seen order": keep an element and drop every later one equal to it up to case\<close>
  "first_seen [] = []"
| "first_seen (x # xs) = x # first_seen (filter (\<lambda>y. lower y \<noteq> lower x) xs)"

fun label_lines :: "string \<Rightarrow> string list \<Rightarrow> (string \<times> string) list" where
  \<comment> \<open>every line that is not a heading, with the key of the heading it follows (the first
      argument for the lines before every heading)\<close>
  "label_lines cur [] = []"
| "label_lines cur (l # ls) =
     (case is_section_header l of
        Some m \<Rightarrow> label_lines m ls
      | None \<Rightarrow> (cur, l) # label_lines cur ls)"

definition lines_of :: "string \<Rightarrow> (string \<times> string) list \<Rightarrow> string list" where
  "lines_of k labelled = map snd (filter (\<lambda>(c, l). c = k) labelled)"

definition lookup :: "(string \<times> string list) list \<Rightarrow> string \<Rightarrow> string list" where
  "lookup d k = (case map_of d k of None \<Rightarrow> [] | Some v \<Rightarrow> v)"

definition name_lines :: "string list \<Rightarrow> string list" where
  \<comment> \<open>the window lines from the start up to and including the first name-like line\<close>
  "name_lines window =
     (if list_ex likely_name window
      then take (Suc (length (takeWhile (\<lambda>l. \<not> likely_name l) window))) window else [])"

definition removed_lines :: "string list \<Rightarrow> string set" where
  \<comment> \<open>the texts that the Header Extractor removes\<close>
  "removed_lines window = set (name_lines window) \<union> set (filter has_contact window)"

definition scan_header :: "nat \<Rightarrow> string list \<Rightarrow> header_scan \<Rightarrow> header_scan" where
  "scan_header n0 ls st = fold (\<lambda>(i, line) st. scan_line i line st) (enumerate n0 ls) st"

text \<open>
  The Repetition Filter in the words of the specification: a trimmed line of at most 6
  words is a candidate if it appears in more than one block; going through the document
  in block order and line order, a line is deleted if it is a candidate and its trimmed
  text has occurred before; a block left without lines is dropped.
\<close>

definition short_key :: "string \<Rightarrow> bool" where
  "short_key k = (length (split_ws k) \<le> 6)"

definition block_count :: "string list list \<Rightarrow> string \<Rightarrow> nat" where
  \<comment> \<open>in how many blocks a trimmed text appears\<close>
  "block_count blocks k = length (filter (\<lambda>b. k \<in> strip ` set b) blocks)"

definition candidate :: "string list list \<Rightarrow> string \<Rightarrow> bool" where
  "candidate blocks k = (short_key k \<and> 1 < block_count blocks k)"

fun keep_new :: "(string \<Rightarrow> bool) \<Rightarrow> string set \<Rightarrow> string list \<Rightarrow> string list" where
  \<comment> \<open>the second argument holds the trimmed texts that occurred earlier in the document\<close>
  "keep_new cand earlier [] = []"
| "keep_new cand earlier (l # ls) =
     (if cand (strip l) \<and> strip l \<in> earlier then keep_new cand (insert (strip l) earlier) ls
      else l # keep_new cand (insert (strip l) earlier) ls)"

fun spec_blocks :: "(string \<Rightarrow> bool) \<Rightarrow> string set \<Rightarrow> string list list \<Rightarrow> string list list" where
  "spec_blocks cand earlier [] = []"
| "spec_blocks cand earlier (b # bs) =
     (if keep_new cand earlier b \<noteq> [] then [keep_new cand earlier b] else [])
     @ spec_blocks cand (earlier \<union> strip ` set b) bs"

definition count_of :: "(string \<times> nat) list \<Rightarrow> string \<Rightarrow> nat" where
  \<comment> \<open>\<open>counter[k]\<close>, which is 0 for a key that is absent\<close>
  "count_of c k = (case map_of c k of None \<Rightarrow> 0 | Some v \<Rightarrow> v)"

text \<open>
  What a match consumes: the text between the place where a pattern is tried and a place
  where it can end; \<open>eats\<close> says that every match of a pattern consumes a text with a
  given property.
\<close>

definition consumed :: "mstate \<Rightarrow> mstate \<Rightarrow> string" where
  "consumed st st' = take (length (ahead st) - length (ahead st')) (ahead st)"

definition eats :: "bool \<Rightarrow> regex \<Rightarrow> (string \<Rightarrow> bool) \<Rightarrow> bool" where
  "eats ci r P = (\<forall>st st'. st' \<in> set (rx ci r st) \<longrightarrow> P (consumed st st'))"

definition has_digit :: "string \<Rightarrow> bool" where
  "has_digit w = (\<exists>x\<in>set w. is_digit x)"

definition no_digit :: "string \<Rightarrow> bool" where
  "no_digit w = (\<forall>x\<in>set w. \<not> is_digit x)"

definition resume_lines :: "string \<Rightarrow> string list" where
  \<comment> \<open>the flat lines the orchestrator works on (the field \<open>lines\<close> of its result)\<close>
  "resume_lines raw_text =
     concat (remove_repeated_header_footer
       (fst (preprocess_text_into_blocks (normalize_newlines (merge_hyphenated_words raw_text)))))"

text \<open>
  \<open>grp_ok\<close> says that what each capturing group of a pattern consumes has a given
  property, \<open>caps_ok\<close> that the groups recorded in a state have it.
\<close>

fun grp_ok :: "bool \<Rightarrow> (nat \<Rightarrow> string \<Rightarrow> bool) \<Rightarrow> regex \<Rightarrow> bool" where
  "grp_ok ci Q (Grp n r) = (eats ci r (Q n) \<and> grp_ok ci Q r)"
| "grp_ok ci Q (Seq a b) = (grp_ok ci Q a \<and> grp_ok ci Q b)"
| "grp_ok ci Q (Alt a b) = (grp_ok ci Q a \<and> grp_ok ci Q b)"
| "grp_ok ci Q (Opt r) = grp_ok ci Q r"
| "grp_ok ci Q r = True"

definition caps_ok :: "(nat \<Rightarrow> string \<Rightarrow> bool) \<Rightarrow> mstate \<Rightarrow> bool" where
  "caps_ok Q st = (\<forall>ng\<in>set (groups st). Q (fst ng) (snd ng))"

section \<open>Facts about scanning\<close>

lemma render_push: "render f (push c ps) = c # render f ps"
  by (cases "(c, ps)" rule: push.cases) (simp_all add: render_def)

lemma hits_push: "hits (push c ps) = hits ps"
  by (cases "(c, ps)" rule: push.cases) (simp_all add: hits_def)














section \<open>Claim C2: the Text Normalizer applied twice\<close>




section \<open>Claim C1: the experience scenario\<close>

text \<open>
  Claim C1 expects one entry with title, company, dates and two bullets from the four
  lines of the scenario. The parser returns four entries: the loop that gathers bullets
  stops at every header-like line, and a bullet line with a capitalised word is
  header-like, as is the date line; so the date line and each bullet start entries of
  their own, and the entry of the first line has neither dates nor bullets.
\<close>

theorem parse_experience_scenario:
  "parse_experience_section
     [''Senior Engineer at Acme Corp'', ''Jan 2020 - Present'', ''- Built a thing'',
      ''- Shipped another thing''] =
   Some (Inr
     [\<lparr>exp_title = Some ''Senior Engineer'', exp_company = Some ''Acme Corp'',
        exp_location = None, exp_start_date = None, exp_end_date = None, exp_bullets = [],
        exp_raw_header = Some ''Senior Engineer at Acme Corp''\<rparr>,
      \<lparr>exp_title = Some ''Jan 2020 - Present'', exp_company = None, exp_location = None,
        exp_start_date = Some ''Jan 2020'', exp_end_date = Some ''Present'', exp_bullets = [],
        exp_raw_header = Some ''Jan 2020 - Present''\<rparr>,
      \<lparr>exp_title = Some ''- Built a thing'', exp_company = None, exp_location = None,
        exp_start_date = None, exp_end_date = None, exp_bullets = [],
        exp_raw_header = Some ''- Built a thing''\<rparr>,
      \<lparr>exp_title = Some ''- Shipped another thing'', exp_company = None, exp_location = None,
        exp_start_date = None, exp_end_date = None, exp_bullets = [],
        exp_raw_header = Some ''- Shipped another thing''\<rparr>])"
  by code_simp

section \<open>Claim C5: where a project entry ends\<close>









section \<open>Claim C9: the skills parser\<close>



lemma first_seen_subset: "set (first_seen xs) \<subseteq> set xs"
  by (induction xs rule: first_seen.induct) auto







section \<open>Claim C3: what the sections hold\<close>

lemma keys_append_to:
  "map fst (append_to k l d) = (if has_key k d then map fst d else map fst d @ [k])"
  by (induction d) (force simp: has_key_def)+

lemma lookup_append_to:
  "lookup (append_to k l d) k' = (if k' = k then lookup d k @ [l] else lookup d k')"
  by (induction d) (auto simp: lookup_def)

lemma mset_append_to:
  "mset (concat (map snd (append_to k l d))) = mset (concat (map snd d)) + {#l#}"
  by (induction d) auto

lemma lookup_new_key: "\<not> has_key k d \<Longrightarrow> lookup (d @ [(k, [])]) k' = lookup d k'"
  by (induction d) (auto simp: lookup_def has_key_def)

lemma fold_segment:
  assumes "distinct (map fst (sections st))" "has_key (current_section st) (sections st)"
  shows "distinct (map fst (sections (fold segment_step ls st)))
    \<and> has_key (current_section (fold segment_step ls st)) (sections (fold segment_step ls st))
    \<and> (\<forall>k. lookup (sections (fold segment_step ls st)) k
            = lookup (sections st) k @ lines_of k (label_lines (current_section st) ls))
    \<and> mset (concat (map snd (sections (fold segment_step ls st))))
        = mset (concat (map snd (sections st))) + mset (filter (\<lambda>l. is_section_header l = None) ls)"
  using assms
proof (induction ls arbitrary: st)
  case Nil
  then show ?case by (simp add: lines_of_def)
next
  case (Cons l ls)
  show ?case
  proof (cases "is_section_header l")
    case None
    let ?st = "st\<lparr>sections := append_to (current_section st) l (sections st)\<rparr>"
    have step: "segment_step l st = ?st" by (simp add: segment_step_def None)
    have d: "distinct (map fst (sections ?st))" and h: "has_key (current_section ?st) (sections ?st)"
      using Cons.prems by (auto simp: keys_append_to has_key_def)
    from Cons.IH [OF d h] show ?thesis
      by (simp add: step None lookup_append_to lines_of_def mset_append_to)
  next
    case (Some m)
    let ?st = "\<lparr>sections = (if has_key m (sections st) then sections st else sections st @ [(m, [])]),
                current_section = m\<rparr>"
    have step: "segment_step l st = ?st" by (simp add: segment_step_def Some)
    have d: "distinct (map fst (sections ?st))" and h: "has_key (current_section ?st) (sections ?st)"
      using Cons.prems by (auto simp: has_key_def)
    from Cons.IH [OF d h] show ?thesis
      by (simp add: step Some lookup_new_key)
  qed
qed

lemma map_of_nonempty:
  "distinct (map fst d) \<Longrightarrow>
   map_of (filter (\<lambda>(k, v). v \<noteq> []) d) k = (if lookup d k = [] then None else Some (lookup d k))"
proof (induction d)
  case Nil
  then show ?case by (simp add: lookup_def)
next
  case (Cons kv d)
  obtain k' v where kv: "kv = (k', v)" by (cases kv)
  from Cons.prems kv have nk: "k' \<notin> fst ` set d" by simp
  then have "map_of d k' = None" by (simp add: map_of_eq_None_iff)
  then have "map_of (filter (\<lambda>(k, v). v \<noteq> []) d) k' = None"
    by (auto simp: map_of_eq_None_iff)
  with Cons kv show ?case by (auto simp: lookup_def)
qed

lemma concat_nonempty: "concat (map snd (filter (\<lambda>(k, v). v \<noteq> []) d)) = concat (map snd d)"
  by (induction d) auto

lemma subseq_lines_of: "subseq (lines_of k (label_lines cur ls)) ls"
  by (induction ls arbitrary: cur) (auto simp: lines_of_def split: option.splits)

lemma fold_segment_plain:
  "\<forall>l\<in>set ls. is_section_header l = None \<Longrightarrow>
   fold segment_step ls \<lparr>sections = [(''other'', v)], current_section = ''other''\<rparr>
     = \<lparr>sections = [(''other'', v @ ls)], current_section = ''other''\<rparr>"
  by (induction ls arbitrary: v) (simp_all add: segment_step_def)

lemma segment_sections_plain:
  "\<forall>l\<in>set lines. is_section_header l = None \<Longrightarrow>
   segment_sections lines = (if lines = [] then [] else [(''other'', lines)])"
  using fold_segment_plain [of lines "[]"] by (simp add: segment_sections_def)

lemma plain_line_1: "is_section_header ''BS Computer Science'' = None"
  by code_simp

lemma plain_line_2: "is_section_header ''GPA 3.9'' = None"
  by code_simp

text \<open>
  Claim C3 says that the values of the section map, put together, give back the input
  lines. They do not: a heading line is consumed and is in no value.
\<close>

theorem heading_line_is_dropped:
  "concat (map snd (segment_sections [''Skills''])) \<noteq> [''Skills'']"
  by code_simp

text \<open>
  Claim C3, amended: the values of the section map hold exactly the input lines that are
  not headings, each as often as it occurs, and the keys are distinct. The value of a key
  is the list, in original order, of the non-heading lines that follow a heading of that
  key (for \<open>other\<close>: that come before every heading), and the key is present only if that
  list is not empty. When no line is a heading, the map is the single section \<open>other\<close>
  holding the input (and is empty for no lines at all).
\<close>

theorem segment_sections_content:
  "mset (concat (map snd (segment_sections lines)))
     = mset (filter (\<lambda>l. is_section_header l = None) lines) \<and>
   distinct (map fst (segment_sections lines)) \<and>
   map_of (segment_sections lines) k
     = (if lines_of k (label_lines ''other'' lines) = [] then None
        else Some (lines_of k (label_lines ''other'' lines))) \<and>
   subseq (lines_of k (label_lines ''other'' lines)) lines \<and>
   ((\<forall>l\<in>set lines. is_section_header l = None) \<longrightarrow>
      segment_sections lines = (if lines = [] then [] else [(''other'', lines)]))"
proof -
  let ?st0 = "\<lparr>sections = [(''other'', [])], current_section = ''other''\<rparr>"
  have d: "distinct (map fst (sections ?st0))" and h: "has_key (current_section ?st0) (sections ?st0)"
    by (simp_all add: has_key_def)
  note f = fold_segment [OF d h, of lines]
  from f have dist: "distinct (map fst (sections (fold segment_step lines ?st0)))" by blast
  from f have look: "lookup (sections (fold segment_step lines ?st0)) k
      = lines_of k (label_lines ''other'' lines)" by (simp add: lookup_def)
  from f have ms: "mset (concat (map snd (sections (fold segment_step lines ?st0))))
      = mset (filter (\<lambda>l. is_section_header l = None) lines)" by simp
  have "mset (concat (map snd (segment_sections lines)))
       = mset (filter (\<lambda>l. is_section_header l = None) lines) \<and>
     distinct (map fst (segment_sections lines)) \<and>
     map_of (segment_sections lines) k
       = (if lines_of k (label_lines ''other'' lines) = [] then None
          else Some (lines_of k (label_lines ''other'' lines))) \<and>
     subseq (lines_of k (label_lines ''other'' lines)) lines"
    unfolding segment_sections_def
    using ms dist look map_of_nonempty [OF dist, of k]
    by (simp add: concat_nonempty distinct_map_filter subseq_lines_of)
  then show ?thesis using segment_sections_plain [of lines] by blast
qed

theorem segment_sections_content_witness:
  "is_section_header ''BS Computer Science'' = None \<and> is_section_header ''GPA 3.9'' = None \<and>
   segment_sections [''BS Computer Science'', ''GPA 3.9'']
     = [(''other'', [''BS Computer Science'', ''GPA 3.9''])]"
proof -
  have h: "\<forall>l\<in>set [''BS Computer Science'', ''GPA 3.9'']. is_section_header l = None"
    by (simp add: plain_line_1 plain_line_2)
  show ?thesis
    using h plain_line_1 plain_line_2
      segment_sections_content [of "[''BS Computer Science'', ''GPA 3.9'']"] by simp
qed

section \<open>Claim C7: a heading followed by two lines\<close>

lemma find_education_1:
  "find (\<lambda>(sect, patterns). list_ex (\<lambda>p. contains p ''education'') patterns) SECTION_PATTERNS
     = Some (''education'', [''education'', ''academic details'', ''academic background''])"
  by code_simp

lemma find_education_2:
  "find (\<lambda>(sect, patterns). list_ex (\<lambda>p. contains p ''academic details'') patterns) SECTION_PATTERNS
     = Some (''education'', [''education'', ''academic details'', ''academic background''])"
  by code_simp

lemma find_education_3:
  "find (\<lambda>(sect, patterns). list_ex (\<lambda>p. contains p ''academic background'') patterns) SECTION_PATTERNS
     = Some (''education'', [''education'', ''academic details'', ''academic background''])"
  by code_simp

lemma education_heading:
  assumes "normalize_for_matching h \<in> set [''education'', ''academic details'', ''academic background'']"
  shows "is_section_header h = Some ''education''"
proof -
  from assms consider "normalize_for_matching h = ''education''"
    | "normalize_for_matching h = ''academic details''"
    | "normalize_for_matching h = ''academic background''" by auto
  then show ?thesis
  proof cases
    case 1
    then show ?thesis by (simp only: is_section_header_def Let_def find_education_1) simp
  next
    case 2
    then show ?thesis by (simp only: is_section_header_def Let_def find_education_2) simp
  next
    case 3
    then show ?thesis by (simp only: is_section_header_def Let_def find_education_3) simp
  qed
qed

lemma content_heading: "is_section_header ''Master of Education, MIT'' = Some ''education''"
  by code_simp

text \<open>
  Claim C7 says that after a heading the section holds the two lines that follow, whatever
  they are. It does not when one of them is itself taken as a heading, which any line
  containing a label is: here the first of the two lines contains the word education, so it
  is consumed as a heading and the section holds the last line only.
\<close>

theorem content_line_taken_as_heading:
  "segment_sections [''EDUCATION'', ''Master of Education, MIT'', ''GPA 3.9'']
     = [(''education'', [''GPA 3.9''])] \<and>
   map_of (segment_sections [''EDUCATION'', ''Master of Education, MIT'', ''GPA 3.9'']) ''education''
     \<noteq> Some [''Master of Education, MIT'', ''GPA 3.9'']"
proof -
  have t: "is_section_header ''EDUCATION'' = Some ''education''"
    by (rule education_heading) code_simp
  have "segment_sections [''EDUCATION'', ''Master of Education, MIT'', ''GPA 3.9'']
     = [(''education'', [''GPA 3.9''])]"
    by (simp add: segment_sections_def segment_step_def t content_heading plain_line_2 has_key_def)
  then show ?thesis by simp
qed

text \<open>
  Claim C7, amended: for a heading whose normalised text is one of the labels of
  \<open>education\<close> (such as the line EDUCATION), followed by two lines neither of which is
  itself recognised as a heading, the section map is the single section \<open>education\<close>
  holding the two lines as they are, and the heading is in no section's content.
\<close>

theorem heading_then_two_lines:
  assumes "normalize_for_matching h \<in> set [''education'', ''academic details'', ''academic background'']"
    and "is_section_header a = None" and "is_section_header b = None"
  shows "segment_sections [h, a, b] = [(''education'', [a, b])] \<and>
    map_of (segment_sections [h, a, b]) ''education'' = Some [a, b] \<and>
    h \<notin> set (concat (map snd (segment_sections [h, a, b])))"
proof -
  have hh: "is_section_header h = Some ''education''" using assms(1) by (rule education_heading)
  have seg: "segment_sections [h, a, b] = [(''education'', [a, b])]"
    by (simp add: segment_sections_def segment_step_def hh assms(2,3) has_key_def)
  from hh assms(2,3) have "h \<noteq> a" "h \<noteq> b" by auto
  with seg show ?thesis by simp
qed

theorem heading_then_two_lines_witness:
  "normalize_for_matching ''EDUCATION'' \<in> set [''education'', ''academic details'', ''academic background'']
   \<and> is_section_header ''BS Computer Science'' = None \<and> is_section_header ''GPA 3.9'' = None
   \<and> segment_sections [''EDUCATION'', ''BS Computer Science'', ''GPA 3.9'']
       = [(''education'', [''BS Computer Science'', ''GPA 3.9''])]"
proof -
  have h1: "normalize_for_matching ''EDUCATION'' \<in> set [''education'', ''academic details'', ''academic background'']"
    by code_simp
  show ?thesis
    using h1 plain_line_1 plain_line_2 heading_then_two_lines [OF h1 plain_line_1 plain_line_2]
    by simp
qed

section \<open>Claim C4: which lines the Header Extractor removes\<close>

lemma scan_header_Nil: "scan_header n0 [] st = st"
  by (simp add: scan_header_def)

lemma scan_header_Cons: "scan_header n0 (l # ls) st = scan_header (Suc n0) ls (scan_line n0 l st)"
  by (simp add: scan_header_def)

lemma scan_line_name:
  "name_candidate (scan_line i l st) =
     (if name_candidate st = None \<and> likely_name l then Some (strip l) else name_candidate st)"
  "name_index (scan_line i l st) =
     (if name_candidate st = None \<and> likely_name l then Some i else name_index st)"
  by (simp_all add: scan_line_def Let_def)

lemma scan_header_name:
  "name_index (scan_header n0 ls st) =
     (if name_candidate st \<noteq> None then name_index st
      else if list_ex likely_name ls
      then Some (n0 + length (takeWhile (\<lambda>l. \<not> likely_name l) ls)) else name_index st)
   \<and> name_candidate (scan_header n0 ls st) =
     (if name_candidate st \<noteq> None then name_candidate st
      else map_option strip (find likely_name ls))"
proof (induction ls arbitrary: n0 st)
  case Nil
  then show ?case by (auto simp: scan_header_Nil)
next
  case (Cons l ls)
  show ?case
    unfolding scan_header_Cons
    by (auto simp: Cons.IH scan_line_name)
qed

lemma map_nth_take: "n \<le> length xs \<Longrightarrow> map (\<lambda>j. xs ! j) [0..<n] = take n xs"
  by (simp add: list_eq_iff_nth_eq)

lemma takeWhile_lt: "list_ex P xs \<Longrightarrow> length (takeWhile (\<lambda>x. \<not> P x) xs) < length xs"
  by (induction xs) auto

lemma header_lines_set_eq:
  "header_lines_set window
     (name_index (scan_header 0 window
        \<lparr>contact = \<lparr>emails = [], phones = [], links = []\<rparr>, name_candidate = None, name_index = None\<rparr>))
   = removed_lines window"
proof (cases "list_ex likely_name window")
  case True
  then have "length (takeWhile (\<lambda>l. \<not> likely_name l) window) < length window"
    by (rule takeWhile_lt)
  then show ?thesis
    using True
    by (simp add: header_lines_set_def removed_lines_def name_lines_def scan_header_name
        map_nth_take take_Suc_conv_app_nth)
next
  case False
  then show ?thesis
    by (simp add: header_lines_set_def removed_lines_def name_lines_def scan_header_name)
qed

text \<open>
  Claim C4 says that lines are removed from the scan window only, so that every line at
  position 15 or later is in the remaining list. It is not so: the lines to remove are
  collected as a set of texts and every line of the input with such a text is dropped.
  Here the line at position 15 repeats the name line.
\<close>

theorem later_line_removed:
  "[''Al'', ''b'', ''b'', ''b'', ''b'', ''b'', ''b'', ''b'', ''b'', ''b'', ''b'', ''b'', ''b'', ''b'',
    ''b'', ''Al'', ''c''] ! 15
   \<notin> set (snd (snd (extract_header_info
       [''Al'', ''b'', ''b'', ''b'', ''b'', ''b'', ''b'', ''b'', ''b'', ''b'', ''b'', ''b'', ''b'', ''b'',
        ''b'', ''Al'', ''c''] 15)))"
  by code_simp

text \<open>
  Claim C4, amended: removal is by text. The remaining list is the input without every
  line whose text is that of a window line from the start up to and including the first
  name-like line (when there is one), or that of a window line in which the email, phone
  or link pattern matches. So a line at position 15 or later is kept, unchanged and in
  order, exactly when its text is none of these; the name is the first name-like line of
  the window, stripped.
\<close>

theorem extract_header_info_removal:
  assumes "extract_header_info lines n = (name, info, remaining)"
  shows "remaining = filter (\<lambda>l. l \<notin> removed_lines (take n lines)) lines \<and>
    name = map_option strip (find likely_name (take n lines)) \<and>
    (\<forall>i. n \<le> i \<and> i < length lines \<and> lines ! i \<notin> removed_lines (take n lines)
        \<longrightarrow> lines ! i \<in> set remaining) \<and>
    (\<forall>l\<in>set lines. l \<in> removed_lines (take n lines) \<longrightarrow> l \<notin> set remaining) \<and>
    subseq remaining lines"
proof -
  let ?st0 = "\<lparr>contact = \<lparr>emails = [], phones = [], links = []\<rparr>, name_candidate = None, name_index = None\<rparr>"
  let ?st = "scan_header 0 (take n lines) ?st0"
  from assms have r: "remaining = filter (\<lambda>l. l \<notin> header_lines_set (take n lines) (name_index ?st)) lines"
    and nm: "name = name_candidate ?st"
    by (simp_all add: extract_header_info_def Let_def scan_header_def)
  from r have r': "remaining = filter (\<lambda>l. l \<notin> removed_lines (take n lines)) lines"
    by (simp only: header_lines_set_eq)
  from nm have "name = map_option strip (find likely_name (take n lines))"
    by (simp add: scan_header_name)
  with r' show ?thesis by (auto simp: subseq_filter_left)
qed

theorem extract_header_info_removal_witness:
  "extract_header_info [''John Doe'', ''Email: john.doe@example.com'', ''EXPERIENCE''] 15
     = (Some ''John Doe'', \<lparr>emails = [''john.doe@example.com''], phones = [], links = []\<rparr>,
        [''EXPERIENCE'']) \<and>
   [''EXPERIENCE''] = filter (\<lambda>l. l \<notin> removed_lines
        (take 15 [''John Doe'', ''Email: john.doe@example.com'', ''EXPERIENCE'']))
      [''John Doe'', ''Email: john.doe@example.com'', ''EXPERIENCE'']"
proof -
  have h: "extract_header_info [''John Doe'', ''Email: john.doe@example.com'', ''EXPERIENCE''] 15
     = (Some ''John Doe'', \<lparr>emails = [''john.doe@example.com''], phones = [], links = []\<rparr>,
        [''EXPERIENCE''])"
    by code_simp
  show ?thesis
    using h extract_header_info_removal [OF h] by blast
qed

section \<open>Claim C6: the Repetition Filter\<close>

lemma keys_bump: "fst ` set (bump k c) = insert k (fst ` set c)"
  by (induction c) force+

lemma distinct_bump: "distinct (map fst c) \<Longrightarrow> distinct (map fst (bump k c))"
  by (induction c) (auto simp: keys_bump)

lemma count_of_bump: "count_of (bump k c) k' = count_of c k' + (if k' = k then 1 else 0)"
  by (induction c) (auto simp: count_of_def)

lemma fold_bump:
  "distinct ks \<Longrightarrow> distinct (map fst c) \<Longrightarrow>
   distinct (map fst (fold bump ks c)) \<and>
   count_of (fold bump ks c) k' = count_of c k' + (if k' \<in> set ks then 1 else 0)"
proof (induction ks arbitrary: c)
  case Nil
  then show ?case by simp
next
  case (Cons k ks)
  from Cons.prems have "distinct ks" "distinct (map fst (bump k c))"
    by (simp_all add: distinct_bump)
  from Cons.IH [OF this] Cons.prems(1) show ?case
    by (auto simp: count_of_bump)
qed

lemma set_seen_keys: "set (seen_keys b) = {k \<in> strip ` set b. short_key k}"
  by (auto simp: seen_keys_def short_key_def)

lemma distinct_seen_keys: "distinct (seen_keys b)"
  by (simp add: seen_keys_def)

lemma fold_blocks_count:
  "distinct (map fst c) \<Longrightarrow>
   distinct (map fst (fold (\<lambda>block counter. fold bump (seen_keys block) counter) blocks c)) \<and>
   count_of (fold (\<lambda>block counter. fold bump (seen_keys block) counter) blocks c) k
     = count_of c k + length (filter (\<lambda>b. k \<in> set (seen_keys b)) blocks)"
proof (induction blocks arbitrary: c)
  case Nil
  then show ?case by simp
next
  case (Cons b blocks)
  note fb = fold_bump [OF distinct_seen_keys Cons.prems, of b k]
  from fb have d: "distinct (map fst (fold bump (seen_keys b) c))" by blast
  from Cons.IH [OF d] fb show ?case by simp
qed

lemma count_blocks_count:
  "distinct (map fst (count_blocks blocks)) \<and>
   count_of (count_blocks blocks) k = (if short_key k then block_count blocks k else 0)"
proof -
  have "length (filter (\<lambda>b. k \<in> set (seen_keys b)) blocks)
      = (if short_key k then block_count blocks k else 0)"
    by (simp add: set_seen_keys block_count_def)
  then show ?thesis
    using fold_blocks_count [of "[]" blocks k] by (simp add: count_blocks_def count_of_def)
qed

lemma repeated_keys:
  "distinct (map fst c) \<Longrightarrow>
   set (map fst (filter (\<lambda>(k, v). 1 < v) c)) = {k. 1 < count_of c k}"
proof (induction c)
  case Nil
  then show ?case by (simp add: count_of_def)
next
  case (Cons kv c)
  obtain k' v where kv: "kv = (k', v)" by (cases kv)
  from Cons.prems kv have nk: "k' \<notin> fst ` set c" by simp
  from Cons have ih: "set (map fst (filter (\<lambda>(k, v). 1 < v) c)) = {k. 1 < count_of c k}" by simp
  have "(x \<in> set (map fst (filter (\<lambda>(k, v). 1 < v) (kv # c)))) = (1 < count_of (kv # c) x)" for x
  proof (cases "x = k'")
    case True
    have "k' \<notin> set (map fst (filter (\<lambda>(k, v). 1 < v) c))" using nk by auto
    then show ?thesis using True by (auto simp: kv count_of_def)
  next
    case False
    have "(x \<in> set (map fst (filter (\<lambda>(k, v). 1 < v) c))) = (1 < count_of c x)" using ih by blast
    then show ?thesis using False by (auto simp: kv count_of_def)
  qed
  then show ?case by blast
qed

lemma repeated_candidates:
  "set (map fst (filter (\<lambda>(k, v). 1 < v) (count_blocks blocks))) = {k. candidate blocks k}"
  using count_blocks_count [of blocks] repeated_keys [of "count_blocks blocks"]
  by (auto simp: candidate_def)

lemma clean_block_spec:
  "removed = repeated \<inter> earlier \<Longrightarrow>
   clean_block repeated removed b
     = (keep_new (\<lambda>k. k \<in> repeated) earlier b, repeated \<inter> (earlier \<union> strip ` set b))"
proof (induction b arbitrary: removed earlier)
  case Nil
  then show ?case by simp
next
  case (Cons l ls)
  show ?case
  proof (cases "strip l \<in> repeated")
    case True
    show ?thesis
    proof (cases "strip l \<in> earlier")
      case e: True
      with True Cons.prems have "removed = repeated \<inter> insert (strip l) earlier" by auto
      from Cons.IH [OF this] True e Cons.prems show ?thesis by (auto simp: Let_def)
    next
      case e: False
      with True Cons.prems have "insert (strip l) removed = repeated \<inter> insert (strip l) earlier" by auto
      from Cons.IH [OF this] True e Cons.prems show ?thesis by (auto simp: Let_def)
    qed
  next
    case False
    with Cons.prems have "removed = repeated \<inter> insert (strip l) earlier" by auto
    from Cons.IH [OF this] False show ?thesis by (auto simp: Let_def)
  qed
qed

lemma clean_blocks_spec:
  "removed = repeated \<inter> earlier \<Longrightarrow>
   clean_blocks repeated removed blocks = spec_blocks (\<lambda>k. k \<in> repeated) earlier blocks"
proof (induction blocks arbitrary: removed earlier)
  case Nil
  then show ?case by simp
next
  case (Cons b blocks)
  have "clean_blocks repeated (repeated \<inter> (earlier \<union> strip ` set b)) blocks
      = spec_blocks (\<lambda>k. k \<in> repeated) (earlier \<union> strip ` set b) blocks"
    by (rule Cons.IH) simp
  then show ?case
    by (simp add: clean_block_spec [OF Cons.prems])
qed

lemma keep_new_none: "(\<And>k. \<not> cand k) \<Longrightarrow> keep_new cand earlier b = b"
  by (induction b arbitrary: earlier) auto

lemma spec_blocks_none:
  "(\<And>k. \<not> cand k) \<Longrightarrow> [] \<notin> set blocks \<Longrightarrow> spec_blocks cand earlier blocks = blocks"
  by (induction blocks arbitrary: earlier) (auto simp: keep_new_none)

lemma remove_repeated_unfold:
  "remove_repeated_header_footer blocks =
     (if {k. candidate blocks k} = {} then blocks
      else clean_blocks {k. candidate blocks k} {} blocks)"
  unfolding remove_repeated_header_footer_def Let_def repeated_candidates ..

lemma remove_repeated_spec:
  assumes "[] \<notin> set blocks"
  shows "remove_repeated_header_footer blocks = spec_blocks (candidate blocks) {} blocks"
proof (cases "{k. candidate blocks k} = {}")
  case True
  then have "\<And>k. \<not> candidate blocks k" by auto
  then have "spec_blocks (candidate blocks) {} blocks = blocks"
    using assms by (rule spec_blocks_none)
  with True show ?thesis
    by (simp add: remove_repeated_unfold)
next
  case False
  have "clean_blocks {k. candidate blocks k} {} blocks
      = spec_blocks (\<lambda>k. k \<in> {k. candidate blocks k}) {} blocks"
    by (rule clean_blocks_spec) simp
  with False show ?thesis
    by (auto simp: remove_repeated_unfold)
qed

lemma keep_new_append:
  "keep_new cand earlier (xs @ ys)
     = keep_new cand earlier xs @ keep_new cand (earlier \<union> strip ` set xs) ys"
  by (induction xs arbitrary: earlier) auto

lemma concat_spec_blocks:
  "concat (spec_blocks cand earlier blocks) = keep_new cand earlier (concat blocks)"
  by (induction blocks arbitrary: earlier) (auto simp: keep_new_append)

lemma spec_blocks_nonempty: "[] \<notin> set (spec_blocks cand earlier blocks)"
  by (induction blocks arbitrary: earlier) auto

lemma subseq_keep_new: "subseq (keep_new cand earlier xs) xs"
  by (induction xs arbitrary: earlier) auto

lemma filter_keep_new:
  "filter (\<lambda>l. strip l = k) (keep_new cand earlier xs)
     = (if cand k then (if k \<in> earlier then [] else take 1 (filter (\<lambda>l. strip l = k) xs))
        else filter (\<lambda>l. strip l = k) xs)"
  by (induction xs arbitrary: earlier) auto

lemma count_list_filter: "count_list (map f xs) k = length (filter (\<lambda>x. f x = k) xs)"
  by (induction xs) auto

lemma keep_new_unique:
  assumes "l \<in> set xs" "count_list (map strip xs) (strip l) = 1"
  shows "l \<in> set (keep_new cand {} xs)"
proof -
  let ?f = "filter (\<lambda>x. strip x = strip l) xs"
  from assms(1) have "l \<in> set ?f" by simp
  moreover from assms(2) have "length ?f = 1" by (simp add: count_list_filter)
  ultimately have "?f = [l]" by (cases ?f) auto
  then have "filter (\<lambda>x. strip x = strip l) (keep_new cand {} xs) = [l]"
    by (simp add: filter_keep_new)
  then have "l \<in> set (filter (\<lambda>x. strip x = strip l) (keep_new cand {} xs))" by simp
  then show ?thesis by simp
qed

text \<open>
  Claim C6, for every list of blocks (a block is a non-empty list of lines): the filter
  does what the specification's words say (\<open>spec_blocks\<close> with the candidates of the
  document). Hence the lines kept are in their original order; no block of the result is
  empty; of a short line that appears in more than one block exactly the first
  occurrence is kept; every occurrence of any other line is kept; and a line whose trimmed
  text occurs once in the document is never removed. Lines are compared by their trimmed
  text, which for the lines of a block is the line itself.
\<close>

theorem remove_repeated_keeps_first:
  assumes "[] \<notin> set blocks"
  shows "remove_repeated_header_footer blocks = spec_blocks (candidate blocks) {} blocks \<and>
    concat (remove_repeated_header_footer blocks) = keep_new (candidate blocks) {} (concat blocks) \<and>
    subseq (concat (remove_repeated_header_footer blocks)) (concat blocks) \<and>
    [] \<notin> set (remove_repeated_header_footer blocks) \<and>
    (candidate blocks k \<longrightarrow>
       filter (\<lambda>l. strip l = k) (concat (remove_repeated_header_footer blocks))
         = take 1 (filter (\<lambda>l. strip l = k) (concat blocks))) \<and>
    (\<not> candidate blocks k \<longrightarrow>
       filter (\<lambda>l. strip l = k) (concat (remove_repeated_header_footer blocks))
         = filter (\<lambda>l. strip l = k) (concat blocks)) \<and>
    (\<forall>l\<in>set (concat blocks). count_list (map strip (concat blocks)) (strip l) = 1
        \<longrightarrow> l \<in> set (concat (remove_repeated_header_footer blocks)))"
  unfolding remove_repeated_spec [OF assms] concat_spec_blocks
  using spec_blocks_nonempty [of "candidate blocks" "{}" blocks]
    keep_new_unique [of _ "concat blocks" "candidate blocks"]
  by (simp add: subseq_keep_new filter_keep_new del: keep_new.simps spec_blocks.simps)

theorem remove_repeated_keeps_first_witness:
  "[] \<notin> set [[''John Doe'', ''page 1'', ''stuff here''], [''John Doe'', ''more stuff''], [''John Doe'']] \<and>
   candidate [[''John Doe'', ''page 1'', ''stuff here''], [''John Doe'', ''more stuff''], [''John Doe'']] ''John Doe'' \<and>
   \<not> candidate [[''John Doe'', ''page 1'', ''stuff here''], [''John Doe'', ''more stuff''], [''John Doe'']] ''page 1'' \<and>
   remove_repeated_header_footer
     [[''John Doe'', ''page 1'', ''stuff here''], [''John Doe'', ''more stuff''], [''John Doe'']]
     = [[''John Doe'', ''page 1'', ''stuff here''], [''more stuff'']] \<and>
   filter (\<lambda>l. strip l = ''John Doe'') (concat (remove_repeated_header_footer
       [[''John Doe'', ''page 1'', ''stuff here''], [''John Doe'', ''more stuff''], [''John Doe'']]))
     = take 1 (filter (\<lambda>l. strip l = ''John Doe'') (concat
       [[''John Doe'', ''page 1'', ''stuff here''], [''John Doe'', ''more stuff''], [''John Doe'']])) \<and>
   filter (\<lambda>l. strip l = ''page 1'') (concat (remove_repeated_header_footer
       [[''John Doe'', ''page 1'', ''stuff here''], [''John Doe'', ''more stuff''], [''John Doe'']]))
     = filter (\<lambda>l. strip l = ''page 1'') (concat
       [[''John Doe'', ''page 1'', ''stuff here''], [''John Doe'', ''more stuff''], [''John Doe'']])"
proof -
  let ?B = "[[''John Doe'', ''page 1'', ''stuff here''], [''John Doe'', ''more stuff''], [''John Doe'']]"
  have h1: "[] \<notin> set ?B" by simp
  have h2: "candidate ?B ''John Doe''" by code_simp
  have h3: "\<not> candidate ?B ''page 1''" by code_simp
  have h4: "remove_repeated_header_footer ?B = [[''John Doe'', ''page 1'', ''stuff here''], [''more stuff'']]"
    by code_simp
  show ?thesis
    using h1 h2 h3 h4 remove_repeated_keeps_first [OF h1, of "''John Doe''"]
      remove_repeated_keeps_first [OF h1, of "''page 1''"]
    by blast
qed

section \<open>Claim C8: the orchestrator returns, and what it returns for a text without structure\<close>

subsection \<open>What the date patterns consume\<close>

lemma ahead_consume: "ahead (consume j st) = drop j (ahead st)"
  by (simp add: consume_def)

lemma rx_suffix: "st' \<in> set (rx ci r st) \<Longrightarrow> \<exists>w. ahead st = w @ ahead st'"
proof (induction r arbitrary: st st')
  case Eps
  then show ?case by simp
next
  case (Atom x)
  show ?case
  proof (cases "ahead st")
    case Nil
    with Atom show ?thesis by simp
  next
    case (Cons c cs)
    with Atom.prems have "ahead st' = cs" by (auto split: if_splits)
    with Cons have "ahead st = [c] @ ahead st'" by simp
    then show ?thesis by blast
  qed
next
  case (Seq r1 r2)
  from Seq.prems obtain st1 where a: "st1 \<in> set (rx ci r1 st)" and b: "st' \<in> set (rx ci r2 st1)"
    by auto
  from Seq.IH(1) [OF a] Seq.IH(2) [OF b] show ?case by auto
next
  case (Alt r1 r2)
  then show ?case by auto
next
  case (Rep x1 x2 x3)
  then obtain j where "st' = consume j st" by (auto simp: Let_def)
  then have "ahead st = take j (ahead st) @ ahead st'" by (simp add: ahead_consume)
  then show ?case by blast
next
  case (Opt r)
  then show ?case by auto
next
  case (Grp x1 r)
  then obtain s1 where "s1 \<in> set (rx ci r st)" "ahead st' = ahead s1" by auto
  with Grp.IH show ?case by metis
next
  case WordB
  then show ?case by (auto split: if_splits)
next
  case Bol
  then show ?case by (auto split: if_splits)
next
  case Eol
  then show ?case by (auto split: if_splits)
qed

lemma consumed_eq: "ahead st = w @ ahead st' \<Longrightarrow> consumed st st' = w"
  by (simp add: consumed_def)

lemma consumed_Seq:
  assumes "st1 \<in> set (rx ci a st)" "st' \<in> set (rx ci b st1)"
  shows "consumed st st' = consumed st st1 @ consumed st1 st'"
proof -
  from rx_suffix [OF assms(1)] obtain u where u: "ahead st = u @ ahead st1" by blast
  from rx_suffix [OF assms(2)] obtain v where v: "ahead st1 = v @ ahead st'" by blast
  from u v have "ahead st = (u @ v) @ ahead st'" by simp
  then have "consumed st st' = u @ v" by (rule consumed_eq)
  with consumed_eq [OF u] consumed_eq [OF v] show ?thesis by simp
qed

lemma eats_SeqL: "eats ci a has_digit \<Longrightarrow> eats ci (Seq a b) has_digit"
  unfolding eats_def
proof (intro allI impI)
  fix st st'
  assume e: "\<forall>st st'. st' \<in> set (rx ci a st) \<longrightarrow> has_digit (consumed st st')"
    and m: "st' \<in> set (rx ci (Seq a b) st)"
  from m obtain st1 where a: "st1 \<in> set (rx ci a st)" and b: "st' \<in> set (rx ci b st1)" by auto
  from e a have "has_digit (consumed st st1)" by blast
  then show "has_digit (consumed st st')"
    by (auto simp: consumed_Seq [OF a b] has_digit_def)
qed

lemma eats_SeqR: "eats ci b has_digit \<Longrightarrow> eats ci (Seq a b) has_digit"
  unfolding eats_def
proof (intro allI impI)
  fix st st'
  assume e: "\<forall>st st'. st' \<in> set (rx ci b st) \<longrightarrow> has_digit (consumed st st')"
    and m: "st' \<in> set (rx ci (Seq a b) st)"
  from m obtain st1 where a: "st1 \<in> set (rx ci a st)" and b: "st' \<in> set (rx ci b st1)" by auto
  from e b have "has_digit (consumed st1 st')" by blast
  then show "has_digit (consumed st st')"
    by (auto simp: consumed_Seq [OF a b] has_digit_def)
qed

lemma eats_Seq_no_digit:
  "eats ci a no_digit \<Longrightarrow> eats ci b no_digit \<Longrightarrow> eats ci (Seq a b) no_digit"
  unfolding eats_def
proof (intro allI impI)
  fix st st'
  assume e1: "\<forall>st st'. st' \<in> set (rx ci a st) \<longrightarrow> no_digit (consumed st st')"
    and e2: "\<forall>st st'. st' \<in> set (rx ci b st) \<longrightarrow> no_digit (consumed st st')"
    and m: "st' \<in> set (rx ci (Seq a b) st)"
  from m obtain st1 where a: "st1 \<in> set (rx ci a st)" and b: "st' \<in> set (rx ci b st1)" by auto
  from e1 a e2 b have "no_digit (consumed st st1)" "no_digit (consumed st1 st')" by blast+
  then show "no_digit (consumed st st')"
    by (auto simp: consumed_Seq [OF a b] no_digit_def)
qed

lemma eats_Alt: "eats ci a P \<Longrightarrow> eats ci b P \<Longrightarrow> eats ci (Alt a b) P"
  by (auto simp: eats_def)

lemma digit_case: "is_digit c \<Longrightarrow> to_lower c = c \<and> to_upper c = c"
  by (cases c) (auto simp: is_digit_def to_lower_def to_upper_def is_upper_def is_lower_def)

lemma digit_in_class: "is_digit c \<Longrightarrow> in_class ci p c = p c"
  by (auto simp: in_class_def digit_case)

lemma not_digit_in_class: "\<not> is_digit c \<Longrightarrow> in_class ci is_digit c = False"
  by (cases c) (auto simp: in_class_def is_digit_def to_lower_def to_upper_def is_upper_def is_lower_def)

lemma eats_digits:
  assumes "1 \<le> lo"
  shows "eats ci (Rep (In is_digit) lo hi) has_digit"
  unfolding eats_def
proof (intro allI impI)
  fix st st'
  assume m: "st' \<in> set (rx ci (Rep (In is_digit) lo hi) st)"
  let ?k = "length (takeWhile (atom_ok ci (In is_digit)) (ahead st))"
  from m obtain j where j: "st' = consume j st" "lo \<le> j" "j \<le> ?k"
    by (auto simp: Let_def split: option.splits)
  from j(3) have "j \<le> length (ahead st)"
    using length_takeWhile_le [of "atom_ok ci (In is_digit)" "ahead st"] by simp
  then have c: "consumed st st' = take j (ahead st)"
    by (simp add: consumed_def j(1) ahead_consume)
  from j(2,3) assms have "0 < ?k" by linarith
  then obtain c cs where s: "ahead st = c # cs" and ok: "atom_ok ci (In is_digit) c"
    by (cases "ahead st") (auto split: if_splits)
  from ok have "is_digit c" using not_digit_in_class [of c ci] by auto
  moreover from j assms s have "c \<in> set (take j (ahead st))" by (cases j) auto
  ultimately show "has_digit (consumed st st')" by (auto simp: c has_digit_def)
qed

lemma eats_atom_no_digit:
  assumes "\<And>c. is_digit c \<Longrightarrow> \<not> p c"
  shows "eats ci (Atom (In p)) no_digit"
  unfolding eats_def
proof (intro allI impI)
  fix st st'
  assume m: "st' \<in> set (rx ci (Atom (In p)) st)"
  then obtain c cs where s: "ahead st = c # cs" "in_class ci p c" "ahead st' = cs"
    by (cases "ahead st") (auto split: if_splits)
  then have "consumed st st' = [c]" by (simp add: consumed_def)
  moreover have "\<not> is_digit c" using s(2) assms digit_in_class [of c ci p] by auto
  ultimately show "no_digit (consumed st st')" by (simp add: no_digit_def)
qed

lemma eats_empty:
  "eats ci Eps no_digit" "eats ci WordB no_digit"
  by (auto simp: eats_def consumed_def no_digit_def)

lemma date_re_has_digit: "eats True DATE_RE has_digit"
proof -
  have d4: "eats True (Rep (In is_digit) 4 (Some 4)) has_digit" by (rule eats_digits) simp
  have my: "eats True month_year has_digit"
    unfolding month_year_def by (rule eats_SeqR, rule eats_SeqR, rule eats_SeqR, rule d4)
  have yr: "eats True (Seq WordB (Seq (Rep (In is_digit) 4 (Some 4)) WordB)) has_digit"
    by (rule eats_SeqR, rule eats_SeqL, rule d4)
  show ?thesis
    unfolding DATE_RE_def by (rule eats_SeqL, rule eats_Alt, rule my, rule yr)
qed

lemma date_sep_no_digit: "eats True date_sep_re no_digit"
proof -
  have "eats True (Atom (In (\<lambda>c. c \<in> set [CHR ''-'', glyph_endash, glyph_emdash]))) no_digit"
    by (rule eats_atom_no_digit) (auto simp: is_digit_def glyph_endash_def glyph_emdash_def)
  moreover have "eats True (lit CHR ''t'') no_digit" "eats True (lit CHR ''o'') no_digit"
    unfolding lit_def by (rule eats_atom_no_digit, auto simp: is_digit_def)+
  then have "eats True (Seq WordB (Seq (str ''to'') WordB)) no_digit"
    unfolding str_def by (simp add: eats_Seq_no_digit eats_empty)
  ultimately show ?thesis unfolding date_sep_re_def by (rule eats_Alt)
qed

subsection \<open>The parsers return\<close>

lemma scan_render_id: "render (\<lambda>h cs. h) (scan ci r p s) = s"
proof (induction s arbitrary: p rule: length_induct)
  case (1 s)
  show ?case
  proof (cases "\<exists>n cs. match_at ci r p s = Some (Suc n, cs)")
    case True
    then obtain n cs where m: "match_at ci r p s = Some (Suc n, cs)" by blast
    then have "s \<noteq> []" by (auto simp: match_at_def split: list.splits)
    then have "length (drop (Suc n) s) < length s" by simp
    with 1 have "render (\<lambda>h cs. h) (scan ci r (Some (s ! n)) (drop (Suc n) s)) = drop (Suc n) s"
      by blast
    then show ?thesis
      by (subst scan.simps) (simp add: m render_def)
  next
    case False
    then have eq: "scan ci r p s = (case s of [] \<Rightarrow> [Gap []] | c # t \<Rightarrow> push c (scan ci r (Some c) t))"
      by (subst scan.simps) (auto split: option.splits nat.splits)
    show ?thesis
    proof (cases s)
      case Nil
      with eq show ?thesis by (simp add: render_def)
    next
      case (Cons c t)
      with 1 have "render (\<lambda>h cs. h) (scan ci r (Some c) t) = t" by simp
      with eq Cons show ?thesis by (simp add: render_push)
    qed
  qed
qed

lemma hits_are_matches:
  "(h, cs) \<in> set (hits (scan ci r p s)) \<Longrightarrow>
   \<exists>st st'. st' \<in> set (rx ci r st) \<and> h = consumed st st'"
proof (induction s arbitrary: p rule: length_induct)
  case (1 s)
  show ?case
  proof (cases "\<exists>n cs. match_at ci r p s = Some (Suc n, cs)")
    case True
    then obtain n cs' where m: "match_at ci r p s = Some (Suc n, cs')" by blast
    then have ne: "s \<noteq> []" by (auto simp: match_at_def split: list.splits)
    from m have sc: "scan ci r p s = Gap [] # Hit (take (Suc n) s) cs' # scan ci r (Some (s ! n)) (drop (Suc n) s)"
      by (subst scan.simps) simp
    from 1(2) sc have "(h, cs) = (take (Suc n) s, cs') \<or> (h, cs) \<in> set (hits (scan ci r (Some (s ! n)) (drop (Suc n) s)))"
      by (auto simp: hits_def)
    then show ?thesis
    proof
      assume "(h, cs) = (take (Suc n) s, cs')"
      let ?st = "\<lparr>behind = p, ahead = s, groups = []\<rparr>"
      from m obtain st' rest' where r: "rx ci r ?st = st' # rest'"
        and n: "Suc n = length s - length (ahead st')"
        by (auto simp: match_at_def split: list.splits)
      then have "st' \<in> set (rx ci r ?st)" by simp
      moreover have "consumed ?st st' = take (Suc n) s" by (simp add: consumed_def n)
      ultimately show ?thesis using \<open>(h, cs) = (take (Suc n) s, cs')\<close> by (metis fst_conv)
    next
      assume a: "(h, cs) \<in> set (hits (scan ci r (Some (s ! n)) (drop (Suc n) s)))"
      from ne have "length (drop (Suc n) s) < length s" by simp
      with 1(1) a show ?thesis by blast
    qed
  next
    case False
    then have eq: "scan ci r p s = (case s of [] \<Rightarrow> [Gap []] | c # t \<Rightarrow> push c (scan ci r (Some c) t))"
      by (subst scan.simps) (auto split: option.splits nat.splits)
    show ?thesis
    proof (cases s)
      case Nil
      with eq 1(2) show ?thesis by (simp add: hits_def)
    next
      case (Cons c t)
      with eq 1(2) have "(h, cs) \<in> set (hits (scan ci r (Some c) t))" by (simp add: hits_push)
      moreover from Cons have "length t < length s" by simp
      ultimately show ?thesis using 1(1) by blast
    qed
  qed
qed

lemma set_render:
  "set (render (\<lambda>h cs. h) ps) = (\<Union>g\<in>set (gaps ps). set g) \<union> (\<Union>hc\<in>set (hits ps). set (fst hc))"
  by (induction ps) (auto simp: render_def gaps_def hits_def split: piece.splits)

lemma strip_empty_iff: "strip s = [] \<longleftrightarrow> (\<forall>x\<in>set s. is_space x)"
proof -
  have "(\<forall>x\<in>set (dropWhile is_space s). is_space x) \<longleftrightarrow> (\<forall>x\<in>set s. is_space x)"
    by (induction s) auto
  then show ?thesis
    by (simp add: strip_def rstrip_def lstrip_def dropWhile_eq_Nil_conv)
qed

lemma digit_not_space: "is_digit c \<Longrightarrow> \<not> is_space c"
  by (cases c) (auto simp: is_digit_def is_space_def)

lemma search_has_digit:
  assumes "re_search True DATE_RE line = Some found"
  shows "has_digit found"
proof -
  from assms obtain cs where "(found, cs) \<in> set (hits (scan True DATE_RE None line))"
    by (auto simp: re_search_def matches_def split: list.splits)
  then obtain st st' where "st' \<in> set (rx True DATE_RE st)" "found = consumed st st'"
    using hits_are_matches by blast
  with date_re_has_digit show ?thesis by (auto simp: eats_def)
qed

lemma split_keeps_digit:
  assumes "has_digit found"
  shows "\<exists>g\<in>set (re_split True date_sep_re found). strip g \<noteq> []"
proof -
  let ?ps = "scan True date_sep_re None found"
  from assms obtain d where d: "d \<in> set found" "is_digit d" by (auto simp: has_digit_def)
  from d(1) have "d \<in> set (render (\<lambda>h cs. h) ?ps)" by (simp add: scan_render_id)
  then consider g where "g \<in> set (gaps ?ps)" "d \<in> set g"
    | hc where "hc \<in> set (hits ?ps)" "d \<in> set (fst hc)"
    by (auto simp: set_render)
  then show ?thesis
  proof cases
    case 1
    with d(2) have "\<not> (\<forall>x\<in>set g. is_space x)" using digit_not_space by blast
    then have "strip g \<noteq> []" by (simp add: strip_empty_iff)
    with 1 show ?thesis by (auto simp: re_split_def)
  next
    case 2
    obtain h cs where hc: "hc = (h, cs)" by (cases hc)
    with 2 obtain st st' where "st' \<in> set (rx True date_sep_re st)" "h = consumed st st'"
      using hits_are_matches by blast
    with date_sep_no_digit have "no_digit h" by (auto simp: eats_def)
    with 2 hc d(2) show ?thesis by (auto simp: no_digit_def)
  qed
qed

lemma extract_dates_returns: "\<exists>r. extract_dates_from_line line = Inr r"
proof (cases "re_search True DATE_RE line")
  case None
  then show ?thesis by (simp add: extract_dates_from_line_def)
next
  case (Some found)
  then have "has_digit found" by (rule search_has_digit)
  then have "filter (\<lambda>p. strip p \<noteq> []) (re_split True date_sep_re found) \<noteq> []"
    using split_keeps_digit [of found] by (auto simp: filter_empty_conv)
  then show ?thesis
    by (auto simp: extract_dates_from_line_def Some Let_def split: list.splits)
qed

lemma split_once_from_two:
  "contains sep s \<Longrightarrow> sep \<noteq> [] \<Longrightarrow> \<exists>a b. split_once_from sep cur s = [a, b]"
  by (induction s arbitrary: cur) auto

lemma contains_char: "c \<in> set s \<Longrightarrow> contains [c] s"
  by (induction s) auto

lemma split_title_company_returns: "\<exists>r. split_title_company header = Inr r"
proof (cases "CHR ''@'' \<in> set header")
  case True
  then have "contains ''@'' header" by (rule contains_char)
  then obtain a b where "split_once ''@'' header = [a, b]"
    using split_once_from_two [of "''@''" header "[]"] by (auto simp: split_once_def)
  with True show ?thesis by (simp add: split_title_company_def)
next
  case False
  then show ?thesis by (auto simp: split_title_company_def split: list.splits)
qed

lemma experience_entry_returns: "\<exists>e. experience_entry header bullets = Inr e"
  using extract_dates_returns [of header] split_title_company_returns [of header]
  by (auto simp: experience_entry_def)

lemma split_degree_institute_returns: "\<exists>r. split_degree_institute header = Inr r"
proof (cases "contains '' - '' header")
  case True
  then obtain a b where "split_once '' - '' header = [a, b]"
    using split_once_from_two [of "'' - ''" header "[]"] by (auto simp: split_once_def)
  then show ?thesis by (auto simp: split_degree_institute_def split: list.splits)
next
  case False
  then show ?thesis by (auto simp: split_degree_institute_def split: list.splits)
qed

lemma parse_education_returns: "\<exists>r. parse_education_section lines = Inr r"
proof (induction lines rule: length_induct)
  case (1 lines)
  show ?case
  proof (cases lines)
    case Nil
    then show ?thesis by (simp add: parse_education_section.simps)
  next
    case (Cons l ls)
    show ?thesis
    proof (cases "strip l = []")
      case True
      from 1 Cons have "\<exists>r. parse_education_section ls = Inr r" by simp
      with True Cons show ?thesis by (subst parse_education_section.simps) simp
    next
      case False
      obtain bs rest where c: "collect_education ls = (bs, rest)" by (cases "collect_education ls")
      then have "length rest \<le> length ls" using collect_education_length [of ls] by simp
      then have "length rest < length lines" using Cons by simp
      with 1 obtain r where r: "parse_education_section rest = Inr r" by blast
      obtain d where d: "split_degree_institute (strip l) = Inr d"
        using split_degree_institute_returns by blast
      from False Cons c r d show ?thesis
        by (subst parse_education_section.simps) (simp split: prod.splits)
    qed
  qed
qed

lemma rstrip_take: "\<exists>k. rstrip u = take k u"
proof -
  have "rstrip u = rev (drop (length (takeWhile is_space (rev u))) (rev u))"
    by (simp add: rstrip_def dropWhile_eq_drop)
  also have "\<dots> = take (length u - length (takeWhile is_space (rev u))) u"
    by (simp add: rev_drop)
  finally show ?thesis by blast
qed

lemma lstrip_fixed: "t = [] \<or> \<not> is_space (hd t) \<Longrightarrow> lstrip t = t"
  by (cases t) (auto simp: lstrip_def)

lemma strip_idem: "strip (strip s) = strip s"
proof -
  let ?u = "lstrip s"
  let ?t = "rstrip ?u"
  have u: "?u = [] \<or> \<not> is_space (hd ?u)"
    using hd_dropWhile [of is_space s] by (auto simp: lstrip_def)
  obtain k where k: "?t = take k ?u" using rstrip_take by blast
  have "?t = [] \<or> \<not> is_space (hd ?t)"
  proof (cases "?t = []")
    case True
    then show ?thesis by simp
  next
    case False
    with k have "0 < k" "?u \<noteq> []" by (cases k; auto)+
    with k u have "hd ?t = hd ?u" "\<not> is_space (hd ?u)" by (auto simp: hd_take)
    then show ?thesis by simp
  qed
  then have l: "lstrip ?t = ?t" by (rule lstrip_fixed)
  have "rstrip ?t = ?t" by (simp add: rstrip_def)
  with l show ?thesis by (simp add: strip_def)
qed

lemma collect_header_suffix: "suffix (snd (collect_header h ls)) ls"
  by (induction ls arbitrary: h) (auto simp: suffix_Cons)

lemma collect_bullets_suffix: "suffix (snd (collect_bullets ls)) ls"
  by (induction ls) (auto simp: suffix_Cons Let_def split: list.splits prod.splits)

lemma collect_buffer_suffix: "suffix (snd (collect_buffer ls)) ls"
  by (induction ls) (auto simp: suffix_Cons Let_def split: prod.splits)

lemma parse_experience_returns:
  "\<forall>l\<in>set ls. strip l = l \<Longrightarrow> \<exists>r. parse_experience_section ls = Some (Inr r)"
proof (induction ls rule: length_induct)
  case (1 ls)
  show ?case
  proof (cases ls)
    case Nil
    then show ?thesis by (simp add: parse_experience_section.simps)
  next
    case (Cons l ls')
    show ?thesis
    proof (cases "is_header_like (strip l)")
      case True
      obtain header ls1 where h: "collect_header (strip l) ls' = (header, ls1)"
        by (cases "collect_header (strip l) ls'")
      obtain bullets ls2 where b: "collect_bullets ls1 = (bullets, ls2)"
        by (cases "collect_bullets ls1")
      have "suffix ls1 ls'" using collect_header_suffix [of "strip l" ls'] h by simp
      moreover have "suffix ls2 ls1" using collect_bullets_suffix [of ls1] b by simp
      ultimately have s: "suffix ls2 ls'" by (rule suffix_order.trans [rotated])
      then have "length ls2 < length ls" "set ls2 \<subseteq> set ls"
        using Cons by (auto dest: suffix_length_le set_mono_suffix)
      with 1 obtain r where r: "parse_experience_section ls2 = Some (Inr r)" by blast
      obtain e where e: "experience_entry header bullets = Inr e"
        using experience_entry_returns by blast
      from True h b e r Cons show ?thesis
        by (subst parse_experience_section.simps) simp
    next
      case False
      from 1(2) Cons have sl: "strip l = l" by simp
      with False have nh: "\<not> is_header_like l" by simp
      obtain bs ls1 where c: "collect_buffer ls' = (bs, ls1)" by (cases "collect_buffer ls'")
      then have "suffix ls1 ls'" using collect_buffer_suffix [of ls'] by simp
      then have "length ls1 < length ls" "set ls1 \<subseteq> set ls"
        using Cons by (auto dest: suffix_length_le set_mono_suffix)
      with 1 obtain r where r: "parse_experience_section ls1 = Some (Inr r)" by blast
      from False nh c r Cons show ?thesis
        by (subst parse_experience_section.simps) simp
    qed
  qed
qed

lemma block_lines_stripped: "l \<in> set (block_lines b) \<Longrightarrow> strip l = l"
  by (auto simp: block_lines_def strip_idem)

lemma preprocess_stripped:
  "b \<in> set (fst (preprocess_text_into_blocks t)) \<Longrightarrow> b \<noteq> [] \<and> (\<forall>l\<in>set b. strip l = l)"
  by (auto simp: preprocess_text_into_blocks_def Let_def block_lines_stripped)

lemma set_keep_new: "set (keep_new cand earlier xs) \<subseteq> set xs"
  by (induction xs arbitrary: earlier) auto

lemma resume_lines_stripped: "l \<in> set (resume_lines raw) \<Longrightarrow> strip l = l"
proof -
  let ?B = "fst (preprocess_text_into_blocks (normalize_newlines (merge_hyphenated_words raw)))"
  assume a: "l \<in> set (resume_lines raw)"
  have ne: "[] \<notin> set ?B" using preprocess_stripped by blast
  from a have "l \<in> set (keep_new (candidate ?B) {} (concat ?B))"
    by (simp add: resume_lines_def remove_repeated_spec [OF ne] concat_spec_blocks)
  then have "l \<in> set (concat ?B)" using set_keep_new by blast
  then show ?thesis using preprocess_stripped by auto
qed

lemma segment_sections_map_of:
  "map_of (segment_sections lines) k
     = (if lines_of k (label_lines ''other'' lines) = [] then None
        else Some (lines_of k (label_lines ''other'' lines)))"
proof -
  let ?st0 = "\<lparr>sections = [(''other'', [])], current_section = ''other''\<rparr>"
  have d: "distinct (map fst (sections ?st0))" and h: "has_key (current_section ?st0) (sections ?st0)"
    by (simp_all add: has_key_def)
  note f = fold_segment [OF d h, of lines]
  from f have dist: "distinct (map fst (sections (fold segment_step lines ?st0)))" by blast
  from f have look: "lookup (sections (fold segment_step lines ?st0)) k
      = lines_of k (label_lines ''other'' lines)" by (simp add: lookup_def)
  show ?thesis
    unfolding segment_sections_def using look map_of_nonempty [OF dist, of k] by simp
qed

lemma set_lines_of: "set (lines_of k (label_lines cur ls)) \<subseteq> set ls"
  by (induction ls arbitrary: cur) (auto simp: lines_of_def split: option.splits)

lemma section_lines_subset:
  assumes "map_of (segment_sections lines) k = Some v"
  shows "set v \<subseteq> set lines"
proof -
  from assms have "v = lines_of k (label_lines ''other'' lines)"
    by (simp add: segment_sections_map_of split: if_splits)
  then show ?thesis by (simp add: set_lines_of)
qed

lemma remaining_subset:
  "extract_header_info lines n = (name, info, remaining) \<Longrightarrow> set remaining \<subseteq> set lines"
  by (auto simp: extract_header_info_def Let_def)

lemma parse_resume_text_returns: "\<exists>r. parse_resume_text raw = Some (Inr r)"
proof -
  obtain name info remaining where e: "extract_header_info (resume_lines raw) 15 = (name, info, remaining)"
    by (cases "extract_header_info (resume_lines raw) 15")
  let ?sects = "segment_sections remaining"
  have stripped: "\<forall>l\<in>set remaining. strip l = l"
    using remaining_subset [OF e] resume_lines_stripped by blast
  have "\<exists>r. (case map_of ?sects ''experience'' of None \<Rightarrow> Some (Inr [])
          | Some ls \<Rightarrow> parse_experience_section ls) = Some (Inr r)"
  proof (cases "map_of ?sects ''experience''")
    case None
    then show ?thesis by simp
  next
    case (Some ls)
    then have "set ls \<subseteq> set remaining" by (rule section_lines_subset)
    with stripped have "\<forall>l\<in>set ls. strip l = l" by blast
    then show ?thesis using Some parse_experience_returns by simp
  qed
  then obtain ex where ex: "(case map_of ?sects ''experience'' of None \<Rightarrow> Some (Inr [])
          | Some ls \<Rightarrow> parse_experience_section ls) = Some (Inr ex)" by blast
  have "\<exists>r. (case map_of ?sects ''education'' of None \<Rightarrow> Inr []
          | Some ls \<Rightarrow> parse_education_section ls) = Inr r"
    using parse_education_returns by (cases "map_of ?sects ''education''") auto
  then obtain ed where ed: "(case map_of ?sects ''education'' of None \<Rightarrow> Inr []
          | Some ls \<Rightarrow> parse_education_section ls) = Inr ed" by blast
  show ?thesis
    unfolding parse_resume_text_def Let_def resume_lines_def [symmetric]
    by (simp add: e ex ed)
qed

subsection \<open>A text without name, contact patterns and headings\<close>

lemma search_none_matches: "re_search ci r s = None \<Longrightarrow> matches ci r s = []"
  by (auto simp: re_search_def split: list.splits)

lemma scan_line_plain:
  assumes "\<not> has_contact l" "\<not> likely_name l"
  shows "scan_line i l st = st"
proof -
  from assms(1) have "matches False email_re l = []" "matches False phone_re l = []"
    "matches True url_re l = []"
    by (auto simp: has_contact_def intro: search_none_matches)
  then have "re_findall False email_re l = []" "re_findall1 False phone_re l = []"
    "re_findall True url_re l = []"
    by (simp_all add: re_findall_def re_findall1_def)
  with assms(2) show ?thesis by (simp add: scan_line_def Let_def)
qed

lemma scan_header_plain:
  "\<forall>l\<in>set ls. \<not> likely_name l \<and> \<not> has_contact l \<Longrightarrow> scan_header n0 ls st = st"
  by (induction ls arbitrary: n0) (simp_all add: scan_header_Nil scan_header_Cons scan_line_plain)

lemma extract_header_info_plain:
  assumes "\<forall>l\<in>set (take n lines). \<not> likely_name l \<and> \<not> has_contact l"
  shows "extract_header_info lines n = (None, \<lparr>emails = [], phones = [], links = []\<rparr>, lines)"
proof -
  let ?st0 = "\<lparr>contact = \<lparr>emails = [], phones = [], links = []\<rparr>, name_candidate = None, name_index = None\<rparr>"
  have "scan_header 0 (take n lines) ?st0 = ?st0" using assms by (rule scan_header_plain)
  moreover have "header_lines_set (take n lines) None = {}"
    using assms by (auto simp: header_lines_set_def)
  ultimately show ?thesis
    by (simp add: extract_header_info_def Let_def scan_header_def [symmetric])
qed

lemma plain_resume_lines: "resume_lines ''we build software for small teams and ship it every single week''
    = [''we build software for small teams and ship it every single week'']"
  by code_simp

lemma plain_resume_no_name: "\<not> likely_name ''we build software for small teams and ship it every single week''"
  by code_simp

lemma plain_resume_no_contact: "\<not> has_contact ''we build software for small teams and ship it every single week''"
  by code_simp

lemma plain_resume_no_heading: "is_section_header ''we build software for small teams and ship it every single week'' = None"
  by code_simp

text \<open>
  Claim C8 says that an input without headings and without contact information gives a
  null name and a single section \<open>other\<close> holding all the lines. It does not when a
  line of the scan window looks like a name: the line becomes the name and is removed from
  the body, so there is no section at all.
\<close>

theorem name_found_without_contact:
  "is_section_header ''Hello World'' = None \<and> \<not> has_contact ''Hello World'' \<and>
   parse_resume_text ''Hello World'' =
     Some (Inr \<lparr>pr_raw_text = ''Hello World'', pr_raw_clean = ''Hello World'',
       pr_name = Some ''Hello World'',
       pr_contact = \<lparr>emails = [], phones = [], links = []\<rparr>,
       pr_blocks = [[''Hello World'']], pr_lines = [''Hello World''],
       pr_sections = [], pr_experience = [], pr_projects = [],
       pr_education = [], pr_skills = [], pr_other = []\<rparr>)"
  by code_simp

text \<open>
  Claim C8, amended: \<open>parse_resume_text\<close> returns a result for every string; it neither
  raises nor runs forever. When none of the first 15 lines looks like a name or matches
  the email, phone or link pattern, and no line is recognised as a heading, the result has
  a null name, empty contact lists, empty experience, projects, education and skills
  lists, no minor sections, and as sections the single section \<open>other\<close> holding all
  the lines, or no section when there is no line at all (as for the empty string).
\<close>

theorem parse_resume_text_total:
  "(\<exists>r. parse_resume_text raw = Some (Inr r)) \<and>
   ((\<forall>l\<in>set (take 15 (resume_lines raw)). \<not> likely_name l \<and> \<not> has_contact l) \<and>
    (\<forall>l\<in>set (resume_lines raw). is_section_header l = None) \<longrightarrow>
    (\<exists>r. parse_resume_text raw = Some (Inr r) \<and> pr_name r = None \<and>
         pr_contact r = \<lparr>emails = [], phones = [], links = []\<rparr> \<and>
         pr_lines r = resume_lines raw \<and>
         pr_sections r = (if resume_lines raw = [] then [] else [(''other'', resume_lines raw)]) \<and>
         pr_experience r = [] \<and> pr_projects r = [] \<and> pr_education r = [] \<and>
         pr_skills r = [] \<and> pr_other r = []))"
proof (intro conjI impI)
  show "\<exists>r. parse_resume_text raw = Some (Inr r)" by (rule parse_resume_text_returns)
next
  assume a: "(\<forall>l\<in>set (take 15 (resume_lines raw)). \<not> likely_name l \<and> \<not> has_contact l) \<and>
    (\<forall>l\<in>set (resume_lines raw). is_section_header l = None)"
  then have e: "extract_header_info (resume_lines raw) 15
      = (None, \<lparr>emails = [], phones = [], links = []\<rparr>, resume_lines raw)"
    by (intro extract_header_info_plain) blast
  from a have s: "segment_sections (resume_lines raw)
      = (if resume_lines raw = [] then [] else [(''other'', resume_lines raw)])"
    by (intro segment_sections_plain) blast
  obtain sects where sects: "sects = segment_sections (resume_lines raw)" by simp
  with s have m: "map_of sects ''experience'' = None" "map_of sects ''projects'' = None"
    "map_of sects ''education'' = None" "map_of sects ''skills'' = None"
    "other_sections sects = []"
    by (simp_all add: other_sections_def)
  show "\<exists>r. parse_resume_text raw = Some (Inr r) \<and> pr_name r = None \<and>
         pr_contact r = \<lparr>emails = [], phones = [], links = []\<rparr> \<and>
         pr_lines r = resume_lines raw \<and>
         pr_sections r = (if resume_lines raw = [] then [] else [(''other'', resume_lines raw)]) \<and>
         pr_experience r = [] \<and> pr_projects r = [] \<and> pr_education r = [] \<and>
         pr_skills r = [] \<and> pr_other r = []"
    unfolding parse_resume_text_def Let_def resume_lines_def [symmetric] e prod.case
      sects [symmetric] m
    using s sects by simp
qed

theorem parse_resume_text_total_witness:
  "resume_lines ''we build software for small teams and ship it every single week''
     = [''we build software for small teams and ship it every single week''] \<and>
   \<not> likely_name ''we build software for small teams and ship it every single week'' \<and>
   \<not> has_contact ''we build software for small teams and ship it every single week'' \<and>
   is_section_header ''we build software for small teams and ship it every single week'' = None \<and>
   (\<exists>r. parse_resume_text ''we build software for small teams and ship it every single week''
           = Some (Inr r) \<and> pr_name r = None \<and>
         pr_sections r = [(''other'', [''we build software for small teams and ship it every single week''])] \<and>
         pr_experience r = [] \<and> pr_skills r = [])"
  using plain_resume_lines plain_resume_no_name plain_resume_no_contact plain_resume_no_heading
    parse_resume_text_total [of "''we build software for small teams and ship it every single week''"]
  by auto

section \<open>Claim C10: a year range in the header\<close>

lemma caps_ok_consume: "caps_ok Q (consume j st) = caps_ok Q st"
  by (simp add: consume_def caps_ok_def)

lemma rx_groups:
  "grp_ok ci Q r \<Longrightarrow> caps_ok Q st \<Longrightarrow> st' \<in> set (rx ci r st) \<Longrightarrow> caps_ok Q st'"
proof (induction r arbitrary: st st')
  case Eps
  then show ?case by simp
next
  case (Atom x)
  show ?case
  proof (cases "ahead st")
    case Nil
    with Atom.prems(3) show ?thesis by simp
  next
    case (Cons c cs)
    with Atom.prems(3) have "st' = st\<lparr>behind := Some c, ahead := cs\<rparr>"
      by (simp split: if_splits)
    with Atom.prems(2) show ?thesis by (simp add: caps_ok_def)
  qed
next
  case (Seq r1 r2)
  from Seq.prems(3) obtain st1 where a: "st1 \<in> set (rx ci r1 st)" and b: "st' \<in> set (rx ci r2 st1)"
    by auto
  from Seq.prems(1) have g: "grp_ok ci Q r1" "grp_ok ci Q r2" by simp_all
  from Seq.IH(1) [OF g(1) Seq.prems(2) a] have "caps_ok Q st1" .
  from Seq.IH(2) [OF g(2) this b] show ?case .
next
  case (Alt r1 r2)
  from Alt.prems(1) have g: "grp_ok ci Q r1" "grp_ok ci Q r2" by simp_all
  from Alt.prems(3) have "st' \<in> set (rx ci r1 st) \<or> st' \<in> set (rx ci r2 st)" by simp
  then show ?case
    using Alt.IH(1) [OF g(1) Alt.prems(2)] Alt.IH(2) [OF g(2) Alt.prems(2)] by blast
next
  case (Rep x1 x2 x3)
  from Rep.prems(3) obtain j where "st' = consume j st" by (auto simp: Let_def)
  with Rep.prems(2) show ?case by (simp add: caps_ok_consume)
next
  case (Opt r)
  from Opt.prems(1) have g: "grp_ok ci Q r" by simp
  from Opt.prems(3) have "st' \<in> set (rx ci r st) \<or> st' = st" by auto
  then show ?case using Opt.IH [OF g Opt.prems(2)] Opt.prems(2) by blast
next
  case (Grp n r)
  from Grp.prems(3) obtain s1 where s1: "s1 \<in> set (rx ci r st)"
    and st': "groups st' = (n, consumed st s1) # groups s1"
    by (auto simp: consumed_def)
  from Grp.prems(1) have e: "eats ci r (Q n)" and g: "grp_ok ci Q r" by simp_all
  from Grp.IH [OF g Grp.prems(2) s1] have "caps_ok Q s1" .
  moreover from e s1 have "Q n (consumed st s1)" by (simp add: eats_def)
  ultimately show ?case by (simp add: caps_ok_def st')
next
  case WordB
  from WordB.prems(3) have "st' = st" by (simp split: if_splits)
  with WordB.prems(2) show ?case by simp
next
  case Bol
  from Bol.prems(3) have "st' = st" by (simp split: if_splits)
  with Bol.prems(2) show ?case by simp
next
  case Eol
  from Eol.prems(3) have "st' = st" by (simp split: if_splits)
  with Eol.prems(2) show ?case by simp
qed

lemma eats_len_Atom: "eats ci (Atom c) (\<lambda>w. length w \<le> 1)"
  unfolding eats_def
proof (intro allI impI)
  fix st st'
  assume "st' \<in> set (rx ci (Atom c) st)"
  then show "length (consumed st st') \<le> 1"
    by (cases "ahead st") (auto simp: consumed_def split: if_splits)
qed

lemma eats_len_Rep: "eats ci (Rep c lo (Some h)) (\<lambda>w. length w \<le> h)"
  unfolding eats_def
proof (intro allI impI)
  fix st st'
  assume "st' \<in> set (rx ci (Rep c lo (Some h)) st)"
  then obtain j where "st' = consume j st" "j \<le> h" by (auto simp: Let_def)
  then show "length (consumed st st') \<le> h" by (simp add: consumed_def ahead_consume)
qed

lemma eats_len_Opt: "eats ci r (\<lambda>w. length w \<le> k) \<Longrightarrow> eats ci (Opt r) (\<lambda>w. length w \<le> k)"
  by (auto simp: eats_def consumed_def)

lemma eats_len_Seq:
  assumes "eats ci a (\<lambda>w. length w \<le> ka)" "eats ci b (\<lambda>w. length w \<le> kb)"
  shows "eats ci (Seq a b) (\<lambda>w. length w \<le> ka + kb)"
  unfolding eats_def
proof (intro allI impI)
  fix st st'
  assume "st' \<in> set (rx ci (Seq a b) st)"
  then obtain st1 where a: "st1 \<in> set (rx ci a st)" and b: "st' \<in> set (rx ci b st1)" by auto
  from assms a b have "length (consumed st st1) \<le> ka" "length (consumed st1 st') \<le> kb"
    by (auto simp: eats_def)
  then show "length (consumed st st') \<le> ka + kb" by (simp add: consumed_Seq [OF a b])
qed

lemma phone_groups_short: "grp_ok False (\<lambda>n g. length g \<le> 5) phone_re"
proof -
  have "eats False (Seq (lit CHR ''+'') (Seq (Rep (In is_digit) 1 (Some 3)) (Opt (Atom space_or_dash))))
          (\<lambda>w. length w \<le> 1 + (3 + 1))"
    unfolding lit_def
    by (intro eats_len_Seq eats_len_Atom eats_len_Rep eats_len_Opt)
  then show ?thesis by (simp add: phone_re_def lit_def)
qed

lemma hits_groups:
  "(h, cs) \<in> set (hits (scan ci r p s)) \<Longrightarrow>
   \<exists>st st'. st' \<in> set (rx ci r st) \<and> groups st = [] \<and> cs = groups st'"
proof (induction s arbitrary: p rule: length_induct)
  case (1 s)
  show ?case
  proof (cases "\<exists>n cs. match_at ci r p s = Some (Suc n, cs)")
    case True
    then obtain n cs' where m: "match_at ci r p s = Some (Suc n, cs')" by blast
    then have ne: "s \<noteq> []" by (auto simp: match_at_def split: list.splits)
    from m have sc: "scan ci r p s = Gap [] # Hit (take (Suc n) s) cs' # scan ci r (Some (s ! n)) (drop (Suc n) s)"
      by (subst scan.simps) simp
    from 1(2) sc have "(h, cs) = (take (Suc n) s, cs') \<or> (h, cs) \<in> set (hits (scan ci r (Some (s ! n)) (drop (Suc n) s)))"
      by (auto simp: hits_def)
    then show ?thesis
    proof
      assume eq: "(h, cs) = (take (Suc n) s, cs')"
      let ?st = "\<lparr>behind = p, ahead = s, groups = []\<rparr>"
      from m obtain st' rest' where r: "rx ci r ?st = st' # rest'" and c: "cs' = groups st'"
        by (auto simp: match_at_def split: list.splits)
      then have "st' \<in> set (rx ci r ?st)" by simp
      moreover have "groups ?st = []" by simp
      ultimately show ?thesis using eq c by (metis snd_conv)
    next
      assume a: "(h, cs) \<in> set (hits (scan ci r (Some (s ! n)) (drop (Suc n) s)))"
      from ne have "length (drop (Suc n) s) < length s" by simp
      with 1(1) a show ?thesis by blast
    qed
  next
    case False
    then have eq: "scan ci r p s = (case s of [] \<Rightarrow> [Gap []] | c # t \<Rightarrow> push c (scan ci r (Some c) t))"
      by (subst scan.simps) (auto split: option.splits nat.splits)
    show ?thesis
    proof (cases s)
      case Nil
      with eq 1(2) show ?thesis by (simp add: hits_def)
    next
      case (Cons c t)
      with eq 1(2) have "(h, cs) \<in> set (hits (scan ci r (Some c) t))" by (simp add: hits_push)
      moreover from Cons have "length t < length s" by simp
      ultimately show ?thesis using 1(1) by blast
    qed
  qed
qed

lemma findall1_phone_short: "m \<in> set (re_findall1 False phone_re line) \<Longrightarrow> length m \<le> 5"
proof -
  assume "m \<in> set (re_findall1 False phone_re line)"
  then obtain h cs where hc: "(h, cs) \<in> set (hits (scan False phone_re None line))" and m: "m = group cs 1"
    by (auto simp: re_findall1_def matches_def)
  from hits_groups [OF hc] obtain st st' where s: "st' \<in> set (rx False phone_re st)"
    "groups st = []" "cs = groups st'" by blast
  from s(2) have "caps_ok (\<lambda>n g. length g \<le> 5) st" by (simp add: caps_ok_def)
  from rx_groups [OF phone_groups_short this s(1)] s(3)
  have all: "\<forall>ng\<in>set cs. length (snd ng) \<le> 5" by (simp add: caps_ok_def)
  show "length m \<le> 5"
  proof (cases "map_of cs 1")
    case None
    then show ?thesis by (simp add: m group_def)
  next
    case (Some g)
    then have "(1, g) \<in> set cs" by (rule map_of_SomeD)
    with all have "length g \<le> 5" by force
    with Some show ?thesis by (simp add: m group_def)
  qed
qed

lemma length_render_le:
  "(\<And>h cs. length (f h cs) \<le> length h) \<Longrightarrow> length (render f ps) \<le> length (render (\<lambda>h cs. h) ps)"
proof (induction ps)
  case Nil
  then show ?case by (simp add: render_def)
next
  case (Cons pc ps)
  then have ih: "length (render f ps) \<le> length (render (\<lambda>h cs. h) ps)" by simp
  show ?case
  proof (cases pc)
    case (Gap g)
    with ih show ?thesis by (simp add: render_def)
  next
    case (Hit h cs)
    with ih Cons.prems [of h cs] show ?thesis by (simp add: render_def)
  qed
qed

lemma digit_count_le: "digit_count s \<le> length s"
  using length_render_le [of "\<lambda>h cs. []" "scan False (Atom (NotIn is_digit)) None s"]
  by (simp add: digit_count_def re_sub_def scan_render_id)

lemma length_strip_le: "length (strip s) \<le> length s"
proof -
  have "length (strip s) \<le> length (lstrip s)"
    using length_dropWhile_le [of is_space "rev (lstrip s)"] by (simp add: strip_def rstrip_def)
  also have "\<dots> \<le> length s" by (simp add: lstrip_def length_dropWhile_le)
  finally show ?thesis .
qed

lemma add_phone_short: "length m \<le> 5 \<Longrightarrow> add_phone m xs = xs"
  using digit_count_le [of "strip m"] length_strip_le [of m]
  by (simp add: add_phone_def Let_def)

lemma fold_add_phone_short: "\<forall>m\<in>set ms. length m \<le> 5 \<Longrightarrow> fold add_phone ms xs = xs"
  by (induction ms) (simp_all add: add_phone_short)

lemma scan_line_phones: "phones (contact (scan_line i line st)) = phones (contact st)"
  using fold_add_phone_short [of "re_findall1 False phone_re line" "phones (contact st)"]
    findall1_phone_short [of _ line]
  by (simp add: scan_line_def Let_def)

lemma scan_header_phones: "phones (contact (scan_header n0 ls st)) = phones (contact st)"
  by (induction ls arbitrary: n0 st) (simp_all add: scan_header_Nil scan_header_Cons scan_line_phones)

lemma no_phone_ever: "phones (fst (snd (extract_header_info lines n))) = []"
  using scan_header_phones [of 0 "take n lines"
      "\<lparr>contact = \<lparr>emails = [], phones = [], links = []\<rparr>, name_candidate = None, name_index = None\<rparr>"]
  by (simp add: extract_header_info_def Let_def scan_header_def)

text \<open>
  Claim C10 expects a bare year range in the scan window to be reported as a phone number.
  The phone pattern does match the whole range, it has eight digits, and the line is
  removed from the body; but the pattern has one capturing group (the country code), so
  \<open>findall\<close> yields that group, empty here, instead of the match, and nothing is
  reported. The group holds a plus sign, at most three digits and at most one separator,
  so no input at all gets a phone number reported.
\<close>

theorem year_range_not_reported:
  "re_search False phone_re ''2015-2019'' = Some ''2015-2019'' \<and>
   digit_count ''2015-2019'' = 8 \<and>
   re_findall1 False phone_re ''2015-2019'' = [[]] \<and>
   extract_header_info [''2015-2019''] 15 = (None, \<lparr>emails = [], phones = [], links = []\<rparr>, []) \<and>
   phones (fst (snd (extract_header_info lines n))) = []"
proof -
  have "re_search False phone_re ''2015-2019'' = Some ''2015-2019'' \<and>
     digit_count ''2015-2019'' = 8 \<and>
     re_findall1 False phone_re ''2015-2019'' = [[]] \<and>
     extract_header_info [''2015-2019''] 15 = (None, \<lparr>emails = [], phones = [], links = []\<rparr>, [])"
    by code_simp
  then show ?thesis using no_phone_ever [of lines n] by blast
qed

end
